theory Spec2Isabelle
  imports Main "HOL-Library.Word" "HOL-Library.Multiset"
begin

section \<open>The Ethereum oracle loop of peggo (orchestrator/oracle.go)\<close>

text \<open>
  A shallow embedding of \<^verbatim>\<open>orchestrator/oracle.go\<close>. Heights and nonces are Go
  \<^verbatim>\<open>uint64\<close> values, modelled as 64-bit words, so that \<open>+\<close> wraps around as in Go.
  Logging has no effect on the values computed and is left out.
\<close>

type_synonym u64 = "64 word"

subsection \<open>Events and the event set\<close>

text \<open>
  Modelled from the spec: the five event structs of the generated contract bindings
  (package \<^verbatim>\<open>peggyevents\<close>) are not part of the source file. The spec (section 3) gives
  each of them an unsigned 64-bit \<open>event_nonce\<close>, the source block number and a payload;
  \<open>EventNonce\<close> here is the value the code reads as \<^verbatim>\<open>e.EventNonce.Uint64()\<close>.
\<close>

record event =
  EventNonce :: u64
  BlockNumber :: u64
  payload :: nat

text \<open>
  A value of Go's \<^verbatim>\<open>any\<close>: one of the five event kinds (the constructors carry the
  names of the Go types of the type switches), or a value of some other dynamic type.
\<close>

datatype any =
    PeggySendToCosmosEvent event
  | PeggySendToInjectiveEvent event
  | PeggyValsetUpdatedEvent event
  | PeggyTransactionBatchExecutedEvent event
  | PeggyERC20DeployedEvent event
  | OtherValue nat

record ethEvents =
  OldDeposits :: "event list"
  Deposits :: "event list"
  Withdrawals :: "event list"
  ValsetUpdates :: "event list"
  ERC20Deployments :: "event list"

text \<open>Errors are values; a panic is a result of its own, which no caller handles.\<close>

datatype err = ErrExternal nat | ErrContext | ErrNoAttempts

datatype 'a res = Ok 'a | Err err | Panic

definition Num :: "ethEvents \<Rightarrow> int" where
  "Num e = int (length (OldDeposits e)) + int (length (Deposits e))
         + int (length (Withdrawals e)) + int (length (ValsetUpdates e))
         + int (length (ERC20Deployments e))"

text \<open>
  One loop of \<^verbatim>\<open>Filter\<close>: \<^verbatim>\<open>for _, d := range ds { if d.EventNonce.Uint64() > nonce
  { acc = append(acc, d) } }\<close>.
\<close>

fun filter_loop :: "u64 \<Rightarrow> event list \<Rightarrow> event list \<Rightarrow> event list" where
  "filter_loop nonce acc [] = acc"
| "filter_loop nonce acc (d # ds) =
     filter_loop nonce (if EventNonce d > nonce then acc @ [d] else acc) ds"

definition Filter :: "ethEvents \<Rightarrow> u64 \<Rightarrow> ethEvents" where
  "Filter e nonce =
     (let oldDeposits = filter_loop nonce [] (OldDeposits e);
          deposits = filter_loop nonce [] (Deposits e);
          withdrawals = filter_loop nonce [] (Withdrawals e);
          valsetUpdates = filter_loop nonce [] (ValsetUpdates e);
          erc20Deployments = filter_loop nonce [] (ERC20Deployments e)
      in \<lparr>OldDeposits = oldDeposits, Deposits = deposits, Withdrawals = withdrawals,
          ValsetUpdates = valsetUpdates, ERC20Deployments = erc20Deployments\<rparr>)"

text \<open>
  One loop of \<^verbatim>\<open>Sort\<close>: \<^verbatim>\<open>for _, x := range xs { events = append(events, x) }\<close>, where
  storing a typed pointer in \<^verbatim>\<open>[]any\<close> tags it with its dynamic type.
\<close>

fun append_loop :: "(event \<Rightarrow> any) \<Rightarrow> any list \<Rightarrow> event list \<Rightarrow> any list" where
  "append_loop tag events [] = events"
| "append_loop tag events (x # xs) = append_loop tag (events @ [tag x]) xs"

text \<open>The closure \<^verbatim>\<open>eventNonce\<close> of \<^verbatim>\<open>Sort\<close>, in the case order of the source.\<close>

fun eventNonce :: "any \<Rightarrow> u64 res" where
  "eventNonce (PeggySendToCosmosEvent e) = Ok (EventNonce e)"
| "eventNonce (PeggySendToInjectiveEvent e) = Ok (EventNonce e)"
| "eventNonce (PeggyValsetUpdatedEvent e) = Ok (EventNonce e)"
| "eventNonce (PeggyTransactionBatchExecutedEvent e) = Ok (EventNonce e)"
| "eventNonce (PeggyERC20DeployedEvent e) = Ok (EventNonce e)"
| "eventNonce (OtherValue v) = Panic"

text \<open>
  The comparison handed to \<^verbatim>\<open>sort.Slice\<close>, on values whose nonce can be extracted.
  \<open>Sort\<close> below calls it only under the guard that no extraction panics.
\<close>

definition nonce_key :: "any \<Rightarrow> u64" where
  "nonce_key x = (case eventNonce x of Ok n \<Rightarrow> n | _ \<Rightarrow> 0)"

definition nonce_less :: "any \<Rightarrow> any \<Rightarrow> bool" where
  "nonce_less a b \<longleftrightarrow> nonce_key a < nonce_key b"

text \<open>
  \<^verbatim>\<open>sort.Slice\<close> belongs to the Go standard library. Its documented contract is all the
  code relies on: the result is a rearrangement of the slice in which no element is less
  than an earlier one; the sort is not guaranteed to be stable. The sorting routine is
  therefore a parameter \<open>srt\<close> of \<open>Sort\<close>, constrained by \<open>sort_Slice_contract\<close>.
\<close>

type_synonym sorter = "(any \<Rightarrow> any \<Rightarrow> bool) \<Rightarrow> any list \<Rightarrow> any list"

definition sort_Slice_contract :: "sorter \<Rightarrow> bool" where
  "sort_Slice_contract srt \<longleftrightarrow>
     (\<forall>xs. mset (srt nonce_less xs) = mset xs
         \<and> sorted_wrt (\<lambda>a b. \<not> nonce_less b a) (srt nonce_less xs))"

text \<open>
  An insertion sort, the routine \<^verbatim>\<open>sort.Slice\<close> itself runs on slices of fewer than
  twelve elements; it serves as the executable instance of the contract.
\<close>

fun insert_less :: "('a \<Rightarrow> 'a \<Rightarrow> bool) \<Rightarrow> 'a \<Rightarrow> 'a list \<Rightarrow> 'a list" where
  "insert_less lt x [] = [x]"
| "insert_less lt x (y # ys) =
     (if lt x y then x # y # ys else y # insert_less lt x ys)"

definition insertion_sort :: "('a \<Rightarrow> 'a \<Rightarrow> bool) \<Rightarrow> 'a list \<Rightarrow> 'a list" where
  "insertion_sort lt xs = foldr (insert_less lt) xs []"

text \<open>
  The slice \<open>Sort\<close> builds before sorting: old deposits, deposits, withdrawals, ERC20
  deployments, valset updates, in this order.
\<close>

definition merged :: "ethEvents \<Rightarrow> any list" where
  "merged e =
     (let events = [];
          events = append_loop PeggySendToCosmosEvent events (OldDeposits e);
          events = append_loop PeggySendToInjectiveEvent events (Deposits e);
          events = append_loop PeggyTransactionBatchExecutedEvent events (Withdrawals e);
          events = append_loop PeggyERC20DeployedEvent events (ERC20Deployments e);
          events = append_loop PeggyValsetUpdatedEvent events (ValsetUpdates e)
      in events)"

text \<open>
  \<^verbatim>\<open>Sort\<close>. Sorting a slice of two or more elements compares every element at least
  once, so a value on which \<open>eventNonce\<close> panics aborts the sort; a slice of fewer than
  two elements is never compared.
\<close>

definition Sort :: "sorter \<Rightarrow> ethEvents \<Rightarrow> any list res" where
  "Sort srt e =
     (let events = merged e
      in if 2 \<le> length events \<and> (\<exists>x \<in> set events. eventNonce x = Panic) then Panic
         else Ok (srt nonce_less events))"

text \<open>The invariant of the spec's data model: nonces are unique across all five kinds.\<close>

definition all_events :: "ethEvents \<Rightarrow> event list" where
  "all_events e = OldDeposits e @ Deposits e @ Withdrawals e @ ValsetUpdates e
                @ ERC20Deployments e"

definition unique_nonces :: "ethEvents \<Rightarrow> bool" where
  "unique_nonces e \<longleftrightarrow> distinct (map EventNonce (all_events e))"

subsection \<open>The outside world\<close>

text \<open>
  The two chain clients, the clock and the context are outside the program. Each call is
  a function on an abstract world \<open>'w\<close> that returns its answer and the next world, so a
  call may answer differently each time. A ghost log records the calls made, in order.
\<close>

datatype kind = OldDeposit | Deposit | Withdrawal | ERC20Deployment | ValsetUpdate

datatype call =
    CallHeaderByNumber
  | CallGetEvents kind u64 u64
  | CallLastClaimEventByAddr
  | CallSendClaim kind event
  | CallSleep int
  | CallRetryWait

record LastClaimEvent =
  EthereumEventNonce :: u64
  EthereumEventHeight :: u64

text \<open>
  The fields of \<^verbatim>\<open>PeggyOrchestrator\<close> the loop uses (\<^verbatim>\<open>maxAttempts\<close>,
  \<^verbatim>\<open>orchestratorAddr\<close>, the methods of \<^verbatim>\<open>eth\<close> and \<^verbatim>\<open>inj\<close>), together with the runtime
  services it calls: \<^verbatim>\<open>time.Now\<close>, \<^verbatim>\<open>time.Sleep\<close>, the context's \<^verbatim>\<open>Err\<close>, and the wait
  between two attempts of \<^verbatim>\<open>retry.Do\<close>, which ends early with the context's error when
  the context is cancelled. Times and durations are in nanoseconds.
\<close>

record 'w PeggyOrchestrator =
  maxAttempts :: nat
  orchestratorAddr :: nat
  HeaderByNumber :: "'w \<Rightarrow> (err + u64) \<times> 'w"
  GetSendToCosmosEvents :: "u64 \<Rightarrow> u64 \<Rightarrow> 'w \<Rightarrow> (err + event list) \<times> 'w"
  GetSendToInjectiveEvents :: "u64 \<Rightarrow> u64 \<Rightarrow> 'w \<Rightarrow> (err + event list) \<times> 'w"
  GetTransactionBatchExecutedEvents :: "u64 \<Rightarrow> u64 \<Rightarrow> 'w \<Rightarrow> (err + event list) \<times> 'w"
  GetPeggyERC20DeployedEvents :: "u64 \<Rightarrow> u64 \<Rightarrow> 'w \<Rightarrow> (err + event list) \<times> 'w"
  GetValsetUpdatedEvents :: "u64 \<Rightarrow> u64 \<Rightarrow> 'w \<Rightarrow> (err + event list) \<times> 'w"
  LastClaimEventByAddr :: "nat \<Rightarrow> 'w \<Rightarrow> (err + LastClaimEvent) \<times> 'w"
  SendOldDepositClaim :: "event \<Rightarrow> 'w \<Rightarrow> err option \<times> 'w"
  SendDepositClaim :: "event \<Rightarrow> 'w \<Rightarrow> err option \<times> 'w"
  SendValsetClaim :: "event \<Rightarrow> 'w \<Rightarrow> err option \<times> 'w"
  SendWithdrawalClaim :: "event \<Rightarrow> 'w \<Rightarrow> err option \<times> 'w"
  SendERC20DeployedClaim :: "event \<Rightarrow> 'w \<Rightarrow> err option \<times> 'w"
  time_Now :: "'w \<Rightarrow> int"
  time_Sleep :: "int \<Rightarrow> 'w \<Rightarrow> 'w"
  ctx_Err :: "'w \<Rightarrow> err option"
  retry_wait :: "'w \<Rightarrow> err option \<times> 'w"

type_synonym 'w st = "'w \<times> call list"

definition perform :: "call \<Rightarrow> ('w \<Rightarrow> 'r \<times> 'w) \<Rightarrow> 'w st \<Rightarrow> 'r \<times> 'w st" where
  "perform c f st = (case f (fst st) of (r, w') \<Rightarrow> (r, (w', snd st @ [c])))"

definition of_sum :: "err + 'a \<Rightarrow> 'a res" where
  "of_sum r = (case r of Inl e \<Rightarrow> Err e | Inr v \<Rightarrow> Ok v)"

definition of_option :: "err option \<Rightarrow> unit res" where
  "of_option r = (case r of Some e \<Rightarrow> Err e | None \<Rightarrow> Ok ())"

definition Millisecond :: int where
  "Millisecond = 1000000"

definition Hour :: int where
  "Hour = 3600000000000"

definition time_Sleep_st :: "'w PeggyOrchestrator \<Rightarrow> int \<Rightarrow> 'w st \<Rightarrow> 'w st" where
  "time_Sleep_st s d st = (time_Sleep s d (fst st), snd st @ [CallSleep d])"

subsection \<open>The retry harness\<close>

text \<open>
  \<^verbatim>\<open>retry.Do\<close> belongs to the library \<^verbatim>\<open>avast/retry-go\<close>; the model follows the
  contract of the spec (section 4.2). An error of the context ends it at once; the
  operation is attempted up to \<^verbatim>\<open>attempts\<close> times; a success ends it; after a failed
  attempt other than the last it waits, and a context cancelled during the wait ends it
  with the context's error; after the last attempt it returns the last error. A panic of
  the operation is not caught. With \<^verbatim>\<open>attempts = 0\<close> the model makes no attempt and
  returns an error; no property below rests on that case.
\<close>

fun retry_loop ::
  "'w PeggyOrchestrator \<Rightarrow> nat \<Rightarrow> ('w st \<Rightarrow> 'a res \<times> 'w st) \<Rightarrow> 'w st \<Rightarrow> 'a res \<times> 'w st" where
  "retry_loop s 0 fn st = (Err ErrNoAttempts, st)"
| "retry_loop s (Suc n) fn st =
     (case fn st of
        (Ok v, st') \<Rightarrow> (Ok v, st')
      | (Panic, st') \<Rightarrow> (Panic, st')
      | (Err e, st') \<Rightarrow>
          if n = 0 then (Err e, st')
          else (case perform CallRetryWait (retry_wait s) st' of
                  (Some ce, st'') \<Rightarrow> (Err ce, st'')
                | (None, st'') \<Rightarrow> retry_loop s n fn st''))"

definition retry_Do ::
  "'w PeggyOrchestrator \<Rightarrow> ('w st \<Rightarrow> 'a res \<times> 'w st) \<Rightarrow> 'w st \<Rightarrow> 'a res \<times> 'w st" where
  "retry_Do s fn st =
     (case ctx_Err s (fst st) of
        Some e \<Rightarrow> (Err e, st)
      | None \<Rightarrow> retry_loop s (maxAttempts s) fn st)"

subsection \<open>The steps of a tick\<close>

definition ethBlockConfirmationDelay :: u64 where
  "ethBlockConfirmationDelay = 12"

definition defaultBlocksToSearch :: u64 where
  "defaultBlocksToSearch = 2000"

record ethOracleLoop =
  loopDuration :: int
  lastResyncWithInjective :: int
  lastCheckedEthHeight :: u64

definition getLatestEthHeightFn :: "'w PeggyOrchestrator \<Rightarrow> 'w st \<Rightarrow> u64 res \<times> 'w st" where
  "getLatestEthHeightFn s st =
     (case perform CallHeaderByNumber (HeaderByNumber s) st of
        (latestHeader, st') \<Rightarrow> (of_sum latestHeader, st'))"

definition getLatestEthHeight :: "'w PeggyOrchestrator \<Rightarrow> 'w st \<Rightarrow> u64 res \<times> 'w st" where
  "getLatestEthHeight s st = retry_Do s (getLatestEthHeightFn s) st"

definition scanEthEventsFn ::
  "'w PeggyOrchestrator \<Rightarrow> u64 \<Rightarrow> u64 \<Rightarrow> 'w st \<Rightarrow> ethEvents res \<times> 'w st" where
  "scanEthEventsFn s startBlock endBlock st =
     (case perform (CallGetEvents OldDeposit startBlock endBlock)
             (GetSendToCosmosEvents s startBlock endBlock) st of
        (Inl e, st1) \<Rightarrow> (Err e, st1)
      | (Inr legacyDeposits, st1) \<Rightarrow>
     (case perform (CallGetEvents Deposit startBlock endBlock)
             (GetSendToInjectiveEvents s startBlock endBlock) st1 of
        (Inl e, st2) \<Rightarrow> (Err e, st2)
      | (Inr deposits, st2) \<Rightarrow>
     (case perform (CallGetEvents Withdrawal startBlock endBlock)
             (GetTransactionBatchExecutedEvents s startBlock endBlock) st2 of
        (Inl e, st3) \<Rightarrow> (Err e, st3)
      | (Inr withdrawals, st3) \<Rightarrow>
     (case perform (CallGetEvents ERC20Deployment startBlock endBlock)
             (GetPeggyERC20DeployedEvents s startBlock endBlock) st3 of
        (Inl e, st4) \<Rightarrow> (Err e, st4)
      | (Inr erc20Deployments, st4) \<Rightarrow>
     (case perform (CallGetEvents ValsetUpdate startBlock endBlock)
             (GetValsetUpdatedEvents s startBlock endBlock) st4 of
        (Inl e, st5) \<Rightarrow> (Err e, st5)
      | (Inr valsetUpdates, st5) \<Rightarrow>
          (Ok \<lparr>OldDeposits = legacyDeposits, Deposits = deposits,
               Withdrawals = withdrawals, ValsetUpdates = valsetUpdates,
               ERC20Deployments = erc20Deployments\<rparr>, st5))))))"

definition getEthEvents ::
  "'w PeggyOrchestrator \<Rightarrow> u64 \<Rightarrow> u64 \<Rightarrow> 'w st \<Rightarrow> ethEvents res \<times> 'w st" where
  "getEthEvents s startBlock endBlock st = retry_Do s (scanEthEventsFn s startBlock endBlock) st"

text \<open>The claim dispatcher, in the case order of the source.\<close>

fun sendEthEventClaim :: "'w PeggyOrchestrator \<Rightarrow> any \<Rightarrow> 'w st \<Rightarrow> unit res \<times> 'w st" where
  "sendEthEventClaim s (PeggySendToCosmosEvent e) st =
     (case perform (CallSendClaim OldDeposit e) (SendOldDepositClaim s e) st of
        (r, st') \<Rightarrow> (of_option r, st'))"
| "sendEthEventClaim s (PeggySendToInjectiveEvent e) st =
     (case perform (CallSendClaim Deposit e) (SendDepositClaim s e) st of
        (r, st') \<Rightarrow> (of_option r, st'))"
| "sendEthEventClaim s (PeggyValsetUpdatedEvent e) st =
     (case perform (CallSendClaim ValsetUpdate e) (SendValsetClaim s e) st of
        (r, st') \<Rightarrow> (of_option r, st'))"
| "sendEthEventClaim s (PeggyTransactionBatchExecutedEvent e) st =
     (case perform (CallSendClaim Withdrawal e) (SendWithdrawalClaim s e) st of
        (r, st') \<Rightarrow> (of_option r, st'))"
| "sendEthEventClaim s (PeggyERC20DeployedEvent e) st =
     (case perform (CallSendClaim ERC20Deployment e) (SendERC20DeployedClaim s e) st of
        (r, st') \<Rightarrow> (of_option r, st'))"
| "sendEthEventClaim s (OtherValue v) st = (Panic, st)"

text \<open>
  The loop of \<^verbatim>\<open>sendEventsFn\<close>: \<^verbatim>\<open>for _, event := range sortedEvents\<close>, returning at the
  first failed submission and sleeping 1200 ms after each successful one.
\<close>

fun send_loop :: "'w PeggyOrchestrator \<Rightarrow> any list \<Rightarrow> 'w st \<Rightarrow> unit res \<times> 'w st" where
  "send_loop s [] st = (Ok (), st)"
| "send_loop s (event # events) st =
     (case sendEthEventClaim s event st of
        (Ok u, st') \<Rightarrow> send_loop s events (time_Sleep_st s (1200 * Millisecond) st')
      | (Err e, st') \<Rightarrow> (Err e, st')
      | (Panic, st') \<Rightarrow> (Panic, st'))"

definition sendEventsFn ::
  "'w PeggyOrchestrator \<Rightarrow> sorter \<Rightarrow> ethEvents \<Rightarrow> 'w st \<Rightarrow> unit res \<times> 'w st" where
  "sendEventsFn s srt events st =
     (case perform CallLastClaimEventByAddr (LastClaimEventByAddr s (orchestratorAddr s)) st of
        (Inl e, st') \<Rightarrow> (Err e, st')
      | (Inr lastClaim, st') \<Rightarrow>
          (let newEvents = Filter events (EthereumEventNonce lastClaim)
           in if Num newEvents = 0 then (Ok (), st')
              else (case Sort srt newEvents of
                      Ok sortedEvents \<Rightarrow> send_loop s sortedEvents st'
                    | Err e \<Rightarrow> (Err e, st')
                    | Panic \<Rightarrow> (Panic, st'))))"

definition sendNewEventClaims ::
  "'w PeggyOrchestrator \<Rightarrow> sorter \<Rightarrow> ethEvents \<Rightarrow> 'w st \<Rightarrow> unit res \<times> 'w st" where
  "sendNewEventClaims s srt events st = retry_Do s (sendEventsFn s srt events) st"

text \<open>
  Modelled from the spec: \<^verbatim>\<open>getLastClaimBlockHeight\<close> is a method of
  \<^verbatim>\<open>PeggyOrchestrator\<close> defined outside the source file. The spec (section 4.7) has it read
  \<open>last_claim_event(ctx, orchestrator_addr).ethereum_event_height\<close>.
\<close>

definition getLastClaimBlockHeight :: "'w PeggyOrchestrator \<Rightarrow> 'w st \<Rightarrow> u64 res \<times> 'w st" where
  "getLastClaimBlockHeight s st =
     (case perform CallLastClaimEventByAddr (LastClaimEventByAddr s (orchestratorAddr s)) st of
        (Inl e, st') \<Rightarrow> (Err e, st')
      | (Inr claim, st') \<Rightarrow> (Ok (EthereumEventHeight claim), st'))"

definition autoResync ::
  "'w PeggyOrchestrator \<Rightarrow> ethOracleLoop \<Rightarrow> 'w st \<Rightarrow> unit res \<times> ethOracleLoop \<times> 'w st" where
  "autoResync s l st =
     (case retry_Do s (getLastClaimBlockHeight s) st of
        (Err e, st') \<Rightarrow> (Err e, l, st')
      | (Panic, st') \<Rightarrow> (Panic, l, st')
      | (Ok latestHeight, st') \<Rightarrow>
          (Ok (), l\<lparr>lastCheckedEthHeight := latestHeight,
                     lastResyncWithInjective := time_Now s (fst st')\<rparr>, st'))"

subsection \<open>One tick\<close>

text \<open>
  The window of a tick: \<open>None\<close> when the tick returns before scanning, otherwise the
  bounds handed to \<^verbatim>\<open>getEthEvents\<close> (lines 59 to 75 of the source).
\<close>

definition scan_window :: "u64 \<Rightarrow> u64 \<Rightarrow> (u64 \<times> u64) option" where
  "scan_window lastChecked latestHeight =
     (if latestHeight \<le> ethBlockConfirmationDelay then None
      else let latestHeight = latestHeight - ethBlockConfirmationDelay
           in if latestHeight \<le> lastChecked then None
              else let latestHeight =
                         (if latestHeight > lastChecked + defaultBlocksToSearch
                          then lastChecked + defaultBlocksToSearch else latestHeight)
                   in Some (lastChecked, latestHeight))"

text \<open>
  The function \<^verbatim>\<open>Run\<close> hands to \<^verbatim>\<open>loops.RunLoop\<close>: one tick, from the loop's state and
  the world to the returned error, the loop's state and the world after it.
\<close>

definition tick ::
  "'w PeggyOrchestrator \<Rightarrow> sorter \<Rightarrow> ethOracleLoop \<Rightarrow> 'w st
     \<Rightarrow> unit res \<times> ethOracleLoop \<times> 'w st" where
  "tick s srt l st =
     (case getLatestEthHeight s st of
        (Err e, st1) \<Rightarrow> (Err e, l, st1)
      | (Panic, st1) \<Rightarrow> (Panic, l, st1)
      | (Ok latestHeight, st1) \<Rightarrow>
     (case scan_window (lastCheckedEthHeight l) latestHeight of
        None \<Rightarrow> (Ok (), l, st1)
      | Some (startBlock, latestHeight) \<Rightarrow>
     (case getEthEvents s startBlock latestHeight st1 of
        (Err e, st2) \<Rightarrow> (Err e, l, st2)
      | (Panic, st2) \<Rightarrow> (Panic, l, st2)
      | (Ok events, st2) \<Rightarrow>
     (case sendNewEventClaims s srt events st2 of
        (Err e, st3) \<Rightarrow> (Err e, l, st3)
      | (Panic, st3) \<Rightarrow> (Panic, l, st3)
      | (Ok u, st3) \<Rightarrow>
          (let l' = l\<lparr>lastCheckedEthHeight := latestHeight\<rparr>
           in if time_Now s (fst st3) - lastResyncWithInjective l' \<ge> 48 * Hour
              then autoResync s l' st3
              else (Ok (), l', st3))))))"

subsection \<open>Vocabulary of the properties\<close>

definition known_kind :: "any \<Rightarrow> bool" where
  "known_kind x = (case x of OtherValue v \<Rightarrow> False | _ \<Rightarrow> True)"

text \<open>The events of a set, each tagged with its kind.\<close>

definition tagged_events :: "ethEvents \<Rightarrow> any multiset" where
  "tagged_events e =
     mset (map PeggySendToCosmosEvent (OldDeposits e))
   + mset (map PeggySendToInjectiveEvent (Deposits e))
   + mset (map PeggyTransactionBatchExecutedEvent (Withdrawals e))
   + mset (map PeggyValsetUpdatedEvent (ValsetUpdates e))
   + mset (map PeggyERC20DeployedEvent (ERC20Deployments e))"

text \<open>What the ghost log says: the event queries, the submissions and their spacing.\<close>

definition is_query :: "call \<Rightarrow> bool" where
  "is_query c = (case c of CallGetEvents k a b \<Rightarrow> True | _ \<Rightarrow> False)"

definition is_send :: "call \<Rightarrow> bool" where
  "is_send c = (case c of CallSendClaim k e \<Rightarrow> True | _ \<Rightarrow> False)"

fun tag_of :: "kind \<Rightarrow> event \<Rightarrow> any" where
  "tag_of OldDeposit e = PeggySendToCosmosEvent e"
| "tag_of Deposit e = PeggySendToInjectiveEvent e"
| "tag_of Withdrawal e = PeggyTransactionBatchExecutedEvent e"
| "tag_of ERC20Deployment e = PeggyERC20DeployedEvent e"
| "tag_of ValsetUpdate e = PeggyValsetUpdatedEvent e"

text \<open>The claims submitted, in the order of their submission, and their nonces.\<close>

fun sent :: "call list \<Rightarrow> any list" where
  "sent [] = []"
| "sent (c # cs) = (case c of CallSendClaim k e \<Rightarrow> tag_of k e # sent cs | _ \<Rightarrow> sent cs)"

fun sent_nonces :: "call list \<Rightarrow> u64 list" where
  "sent_nonces [] = []"
| "sent_nonces (c # cs) =
     (case c of CallSendClaim k e \<Rightarrow> EventNonce e # sent_nonces cs | _ \<Rightarrow> sent_nonces cs)"

text \<open>
  Every submission that is not the last call of the log is followed at once by the sleep
  of 1200 ms, so that such a sleep lies between any two submissions.
\<close>

fun spaced :: "call list \<Rightarrow> bool" where
  "spaced [] = True"
| "spaced [c] = True"
| "spaced (c # c' # cs) =
     ((if is_send c then c' = CallSleep (1200 * Millisecond) else True) \<and> spaced (c' # cs))"

text \<open>
  An event query of the log asks for the blocks from \<open>a\<close> to \<open>b\<close>, or at least
  starts at \<open>a\<close>; calls that are no event queries satisfy both.
\<close>

definition within :: "u64 \<Rightarrow> u64 \<Rightarrow> call \<Rightarrow> bool" where
  "within a b c \<longleftrightarrow> (case c of CallGetEvents k a' b' \<Rightarrow> a' = a \<and> b' = b | _ \<Rightarrow> True)"

definition starts_at :: "u64 \<Rightarrow> call \<Rightarrow> bool" where
  "starts_at a c \<longleftrightarrow> (case c of CallGetEvents k a' b' \<Rightarrow> a' = a | _ \<Rightarrow> True)"

text \<open>The log of \<open>st'\<close> is the log of \<open>st\<close> followed by calls that all satisfy \<open>P\<close>.\<close>

definition extends_by :: "(call \<Rightarrow> bool) \<Rightarrow> 'w st \<Rightarrow> 'w st \<Rightarrow> bool" where
  "extends_by P st st' \<longleftrightarrow> (\<exists>tr. snd st' = snd st @ tr \<and> list_all P tr)"

subsection \<open>Concrete scenarios\<close>

text \<open>
  A scripted outside world for running the loop on concrete inputs. The world is the
  number of calls answered so far; the head height, the last claim, the outcome of a
  submission and the clock may depend on it. The event queries return the events of a
  fixed set that lie in the inclusive block range asked for.
\<close>

definition ev :: "u64 \<Rightarrow> u64 \<Rightarrow> event" where
  "ev n b = \<lparr>EventNonce = n, BlockNumber = b, payload = 0\<rparr>"

definition in_range :: "u64 \<Rightarrow> u64 \<Rightarrow> event \<Rightarrow> bool" where
  "in_range a b e \<longleftrightarrow> a \<le> BlockNumber e \<and> BlockNumber e \<le> b"

definition mock ::
  "nat \<Rightarrow> (nat \<Rightarrow> err + u64) \<Rightarrow> ethEvents \<Rightarrow> (nat \<Rightarrow> err + LastClaimEvent)
     \<Rightarrow> (event \<Rightarrow> nat \<Rightarrow> err option) \<Rightarrow> (nat \<Rightarrow> int) \<Rightarrow> nat PeggyOrchestrator" where
  "mock attempts head evs lastClaim send now =
     \<lparr>maxAttempts = attempts,
      orchestratorAddr = 0,
      HeaderByNumber = (\<lambda>w. (head w, Suc w)),
      GetSendToCosmosEvents = (\<lambda>a b w. (Inr (filter (in_range a b) (OldDeposits evs)), Suc w)),
      GetSendToInjectiveEvents = (\<lambda>a b w. (Inr (filter (in_range a b) (Deposits evs)), Suc w)),
      GetTransactionBatchExecutedEvents =
        (\<lambda>a b w. (Inr (filter (in_range a b) (Withdrawals evs)), Suc w)),
      GetPeggyERC20DeployedEvents =
        (\<lambda>a b w. (Inr (filter (in_range a b) (ERC20Deployments evs)), Suc w)),
      GetValsetUpdatedEvents = (\<lambda>a b w. (Inr (filter (in_range a b) (ValsetUpdates evs)), Suc w)),
      LastClaimEventByAddr = (\<lambda>addr w. (lastClaim w, Suc w)),
      SendOldDepositClaim = (\<lambda>e w. (send e w, Suc w)),
      SendDepositClaim = (\<lambda>e w. (send e w, Suc w)),
      SendValsetClaim = (\<lambda>e w. (send e w, Suc w)),
      SendWithdrawalClaim = (\<lambda>e w. (send e w, Suc w)),
      SendERC20DeployedClaim = (\<lambda>e w. (send e w, Suc w)),
      time_Now = now,
      time_Sleep = (\<lambda>d w. w),
      ctx_Err = (\<lambda>w. None),
      retry_wait = (\<lambda>w. (None, w))\<rparr>"

text \<open>Scenario 3 of the spec: three events of three kinds, out of nonce order.\<close>

definition mixed_events :: ethEvents where
  "mixed_events =
     \<lparr>OldDeposits = [ev 10 1020], Deposits = [], Withdrawals = [ev 8 1015],
      ValsetUpdates = [ev 9 1018], ERC20Deployments = []\<rparr>"

definition no_events :: ethEvents where
  "no_events =
     \<lparr>OldDeposits = [], Deposits = [], Withdrawals = [], ValsetUpdates = [],
      ERC20Deployments = []\<rparr>"

definition claim_at :: "u64 \<Rightarrow> u64 \<Rightarrow> LastClaimEvent" where
  "claim_at n h = \<lparr>EthereumEventNonce = n, EthereumEventHeight = h\<rparr>"

text \<open>Scenario 2 of the spec: head at 1100, no event in the set, last claim at nonce 6.\<close>

definition quiet_orch :: "nat PeggyOrchestrator" where
  "quiet_orch = mock 1 (\<lambda>w. Inr 1100) no_events (\<lambda>w. Inr (claim_at 6 1000))
                  (\<lambda>e w. None) (\<lambda>w. 0)"

text \<open>Scenario 1 of the spec: head at 1010, ten blocks above the cursor.\<close>

definition young_orch :: "nat PeggyOrchestrator" where
  "young_orch = mock 1 (\<lambda>w. Inr 1010) no_events (\<lambda>w. Inr (claim_at 6 1000))
                  (\<lambda>e w. None) (\<lambda>w. 0)"

text \<open>
  A cursor 1000 below the top of the \<^verbatim>\<open>uint64\<close> range (run from
  \<open>loop_at 18446744073709550616\<close>), with the head at the top of the range.
\<close>

definition wrap_orch :: "nat PeggyOrchestrator" where
  "wrap_orch = mock 1 (\<lambda>w. Inr 18446744073709551615) no_events (\<lambda>w. Inr (claim_at 6 1000))
                 (\<lambda>e w. None) (\<lambda>w. 0)"

definition loop_at :: "u64 \<Rightarrow> ethOracleLoop" where
  "loop_at c = \<lparr>loopDuration = 60000 * Millisecond, lastResyncWithInjective = 0,
               lastCheckedEthHeight = c\<rparr>"

text \<open>
  Scenario 3 of the spec with a retry budget of two: the second submission of the first
  attempt fails (the ninth call), every other call succeeds, and the last claim stays at
  nonce 7.
\<close>

definition retry_orch :: "nat PeggyOrchestrator" where
  "retry_orch = mock 2 (\<lambda>w. Inr 1200) mixed_events (\<lambda>w. Inr (claim_at 7 1000))
                  (\<lambda>e w. if w = 8 then Some (ErrExternal 2) else None) (\<lambda>w. 0)"

text \<open>
  Scenario 6 of the spec inside a tick: 49 hours after the last resync, cursor at 5000,
  head at 6000, last claim observed at height 4200.
\<close>

definition resync_rewinds_orch :: "nat PeggyOrchestrator" where
  "resync_rewinds_orch = mock 1 (\<lambda>w. Inr 6000) no_events (\<lambda>w. Inr (claim_at 6 4200))
                           (\<lambda>e w. None) (\<lambda>w. 49 * Hour)"



text \<open>A clock that advances by one hour with every call answered.\<close>

definition ticking_orch :: "nat PeggyOrchestrator" where
  "ticking_orch = mock 1 (\<lambda>w. Inr 6000) no_events (\<lambda>w. Inr (claim_at 6 4200))
                    (\<lambda>e w. None) (\<lambda>w. int w * Hour)"

definition resync_once :: "unit res \<times> ethOracleLoop \<times> nat st" where
  "resync_once = autoResync ticking_orch (loop_at 5000) (0, [])"

definition resync_twice :: "unit res \<times> ethOracleLoop \<times> nat st" where
  "resync_twice = autoResync ticking_orch (fst (snd resync_once)) (snd (snd resync_once))"

text \<open>
  Scenario 2 of the spec, with the deposit of nonce 7 in block 1088, the upper bound of
  the first window, and a last claim that stays at nonce 6.
\<close>

definition boundary_events :: ethEvents where
  "boundary_events =
     \<lparr>OldDeposits = [], Deposits = [ev 7 1088], Withdrawals = [], ValsetUpdates = [],
      ERC20Deployments = []\<rparr>"

definition boundary_orch :: "nat PeggyOrchestrator" where
  "boundary_orch = mock 1 (\<lambda>w. if w = 0 then Inr 1100 else Inr 1200) boundary_events
                     (\<lambda>w. Inr (claim_at 6 1000)) (\<lambda>e w. None) (\<lambda>w. 0)"

definition first_tick :: "nat PeggyOrchestrator \<Rightarrow> u64 \<Rightarrow> unit res \<times> ethOracleLoop \<times> nat st" where
  "first_tick s c = tick s insertion_sort (loop_at c) (0, [])"

definition second_tick :: "nat PeggyOrchestrator \<Rightarrow> u64 \<Rightarrow> unit res \<times> ethOracleLoop \<times> nat st" where
  "second_tick s c =
     tick s insertion_sort (fst (snd (first_tick s c))) (fst (snd (snd (first_tick s c))), [])"

section \<open>Properties\<close>

subsection \<open>The loops of the event set are filters and appends\<close>

lemma filter_loop_eq: "filter_loop n acc ds = acc @ filter (\<lambda>d. n < EventNonce d) ds"
  by (induction ds arbitrary: acc) simp_all

lemma append_loop_eq: "append_loop tag events xs = events @ map tag xs"
  by (induction xs arbitrary: events) simp_all

lemma merged_eq:
  "merged e = map PeggySendToCosmosEvent (OldDeposits e)
            @ map PeggySendToInjectiveEvent (Deposits e)
            @ map PeggyTransactionBatchExecutedEvent (Withdrawals e)
            @ map PeggyERC20DeployedEvent (ERC20Deployments e)
            @ map PeggyValsetUpdatedEvent (ValsetUpdates e)"
  by (simp add: merged_def append_loop_eq)

lemma eventNonce_merged: "x \<in> set (merged e) \<Longrightarrow> eventNonce x = Ok (nonce_key x)"
  by (auto simp: merged_eq nonce_key_def)

lemma Sort_eq: "Sort srt e = Ok (srt nonce_less (merged e))"
  using eventNonce_merged [of _ e] by (auto simp: Sort_def Let_def)

lemma length_merged: "int (length (merged e)) = Num e"
  by (simp add: merged_eq Num_def)

lemma nonce_key_tag [simp]:
  "nonce_key (PeggySendToCosmosEvent d) = EventNonce d"
  "nonce_key (PeggySendToInjectiveEvent d) = EventNonce d"
  "nonce_key (PeggyValsetUpdatedEvent d) = EventNonce d"
  "nonce_key (PeggyTransactionBatchExecutedEvent d) = EventNonce d"
  "nonce_key (PeggyERC20DeployedEvent d) = EventNonce d"
  by (simp_all add: nonce_key_def)

lemma map_nonce_key_merged:
  "mset (map nonce_key (merged e)) = mset (map EventNonce (all_events e))"
  by (simp add: merged_eq all_events_def comp_def)

lemma distinct_nonce_key_merged:
  "unique_nonces e \<Longrightarrow> distinct (map nonce_key (merged e))"
  using map_nonce_key_merged [of e] unfolding unique_nonces_def
  by (metis mset_eq_imp_distinct_iff)

lemma contract_sorted:
  assumes "sort_Slice_contract srt"
  shows "sorted (map nonce_key (srt nonce_less xs))"
proof -
  have "sorted_wrt (\<lambda>a b. \<not> nonce_less b a) (srt nonce_less xs)"
    using assms by (simp add: sort_Slice_contract_def)
  then have "sorted_wrt (\<lambda>a b. nonce_key a \<le> nonce_key b) (srt nonce_less xs)"
    by (simp add: nonce_less_def not_less)
  then show ?thesis by (simp add: sorted_wrt_map)
qed

lemma contract_mset:
  "sort_Slice_contract srt \<Longrightarrow> mset (srt nonce_less xs) = mset xs"
  by (simp add: sort_Slice_contract_def)

lemma contract_strict:
  assumes "sort_Slice_contract srt" "distinct (map nonce_key xs)"
  shows "sorted_wrt (<) (map nonce_key (srt nonce_less xs))"
proof -
  have "mset (map nonce_key (srt nonce_less xs)) = mset (map nonce_key xs)"
    using contract_mset [OF assms(1)] by (metis mset_map)
  then have "distinct (map nonce_key (srt nonce_less xs))"
    using assms(2) by (metis mset_eq_imp_distinct_iff)
  with contract_sorted [OF assms(1)] show ?thesis
    by (simp add: strict_sorted_iff)
qed

lemma strict_sorted_key_unique:
  fixes f :: "'a \<Rightarrow> 'b::linorder"
  assumes "sorted_wrt (<) (map f xs)" "sorted_wrt (<) (map f ys)" "mset xs = mset ys"
  shows "xs = ys"
proof -
  have s: "set xs = set ys" using assms(3) by (metis set_mset_mset)
  have d: "distinct (map f xs)" "distinct (map f ys)" "sorted (map f xs)" "sorted (map f ys)"
    using assms(1,2) by (simp_all add: strict_sorted_iff)
  have "map f xs = map f ys"
    by (rule sorted_distinct_set_unique) (use d s in simp_all)
  moreover have "inj_on f (set xs \<union> set ys)"
    using d(1) s by (simp add: distinct_map)
  ultimately show ?thesis by (simp add: inj_on_map_eq_map)
qed

lemma merged_Filter:
  "merged (Filter e n) = filter (\<lambda>x. \<not> nonce_key x \<le> n) (merged e)"
  by (simp add: merged_eq Filter_def filter_loop_eq filter_map comp_def not_le)

lemma insert_less_mset: "mset (insert_less lt x xs) = {#x#} + mset xs"
  by (induction xs) simp_all

lemma insertion_sort_mset: "mset (insertion_sort lt xs) = mset xs"
  by (induction xs) (simp_all add: insertion_sort_def insert_less_mset)

lemma insert_less_set: "set (insert_less lt x xs) = insert x (set xs)"
  by (induction xs) auto

lemma insert_less_sorted:
  fixes f :: "'a \<Rightarrow> 'b::linorder"
  shows "sorted (map f xs) \<Longrightarrow> sorted (map f (insert_less (\<lambda>a b. f a < f b) x xs))"
  by (induction xs) (auto simp: insert_less_set)

lemma insertion_sort_sorted:
  fixes f :: "'a \<Rightarrow> 'b::linorder"
  shows "sorted (map f (insertion_sort (\<lambda>a b. f a < f b) xs))"
  by (induction xs) (simp_all add: insertion_sort_def insert_less_sorted)

lemma insertion_sort_contract: "sort_Slice_contract insertion_sort"
proof -
  have "nonce_less = (\<lambda>a b. nonce_key a < nonce_key b)"
    by (intro ext) (simp add: nonce_less_def)
  then have "sorted (map nonce_key (insertion_sort nonce_less xs))" for xs
    using insertion_sort_sorted [of nonce_key xs] by simp
  then have "sorted_wrt (\<lambda>a b. \<not> nonce_less b a) (insertion_sort nonce_less xs)" for xs
    by (simp add: sorted_wrt_map nonce_less_def not_less)
  then show ?thesis
    by (simp add: sort_Slice_contract_def insertion_sort_mset)
qed

subsection \<open>Filter\<close>

text \<open>
  C5. For every event set and every nonce \<open>n\<close>, each of the five sequences of
  \<open>Filter(n)\<close> is the sequence of the same kind restricted to the elements whose
  \<open>event_nonce\<close> is strictly greater than \<open>n\<close>: exactly those elements survive, none
  changes kind, and the survivors keep their relative order.
\<close>

theorem Filter_keeps_greater:
  "OldDeposits (Filter e n) = filter (\<lambda>d. n < EventNonce d) (OldDeposits e)
 \<and> Deposits (Filter e n) = filter (\<lambda>d. n < EventNonce d) (Deposits e)
 \<and> Withdrawals (Filter e n) = filter (\<lambda>d. n < EventNonce d) (Withdrawals e)
 \<and> ValsetUpdates (Filter e n) = filter (\<lambda>d. n < EventNonce d) (ValsetUpdates e)
 \<and> ERC20Deployments (Filter e n) = filter (\<lambda>d. n < EventNonce d) (ERC20Deployments e)"
  by (simp add: Filter_def filter_loop_eq)

subsection \<open>Sort\<close>

lemma tagged_events_merged: "mset (merged e) = tagged_events e"
  by (simp add: merged_eq tagged_events_def)

lemma unique_mixed: "unique_nonces mixed_events"
  by (simp add: unique_nonces_def all_events_def mixed_events_def ev_def)

text \<open>
  C6. For every event set whose nonces are unique across the five kinds, and every
  sorting routine that meets the contract of \<^verbatim>\<open>sort.Slice\<close>, \<open>Sort()\<close> returns (it does
  not panic) a sequence that is a permutation of all the events of the set, of length
  \<open>Num()\<close>, in strictly ascending \<open>event_nonce\<close> order.
\<close>

theorem Sort_permutation_ascending:
  assumes "sort_Slice_contract srt" and "unique_nonces e"
  shows "\<exists>evs. Sort srt e = Ok evs \<and> mset evs = tagged_events e
           \<and> int (length evs) = Num e
           \<and> map eventNonce evs = map (\<lambda>x. Ok (nonce_key x)) evs
           \<and> sorted_wrt (<) (map nonce_key evs)"
proof -
  let ?evs = "srt nonce_less (merged e)"
  have m: "mset ?evs = mset (merged e)"
    by (rule contract_mset [OF assms(1)])
  have "length ?evs = length (merged e)"
    using m by (metis size_mset)
  then have l: "int (length ?evs) = Num e"
    by (simp add: length_merged)
  have "set ?evs = set (merged e)"
    using m by (metis set_mset_mset)
  then have k: "map eventNonce ?evs = map (\<lambda>x. Ok (nonce_key x)) ?evs"
    by (simp add: eventNonce_merged)
  have "sorted_wrt (<) (map nonce_key ?evs)"
    by (rule contract_strict [OF assms(1) distinct_nonce_key_merged [OF assms(2)]])
  with m l k show ?thesis
    by (simp add: Sort_eq tagged_events_merged)
qed

theorem Sort_permutation_ascending_witness:
  "sort_Slice_contract insertion_sort \<and> unique_nonces mixed_events
 \<and> (\<exists>evs. Sort insertion_sort mixed_events = Ok evs \<and> mset evs = tagged_events mixed_events
           \<and> int (length evs) = Num mixed_events
           \<and> map eventNonce evs = map (\<lambda>x. Ok (nonce_key x)) evs
           \<and> sorted_wrt (<) (map nonce_key evs))"
  using Sort_permutation_ascending [OF insertion_sort_contract unique_mixed]
    insertion_sort_contract unique_mixed by simp

lemma sort_filter_commute:
  assumes "sort_Slice_contract srt" and "distinct (map nonce_key xs)"
  shows "srt nonce_less (filter P xs) = filter P (srt nonce_less xs)"
proof (rule strict_sorted_key_unique [where f = nonce_key])
  have "distinct (map nonce_key (filter P xs))"
    using assms(2) by (simp add: distinct_map_filter)
  then show "sorted_wrt (<) (map nonce_key (srt nonce_less (filter P xs)))"
    by (rule contract_strict [OF assms(1)])
  have "sorted_wrt (\<lambda>a b. nonce_key a < nonce_key b) (srt nonce_less xs)"
    using contract_strict [OF assms] by (simp add: sorted_wrt_map)
  then have "sorted_wrt (\<lambda>a b. nonce_key a < nonce_key b) (filter P (srt nonce_less xs))"
    by (rule sorted_wrt_filter)
  then show "sorted_wrt (<) (map nonce_key (filter P (srt nonce_less xs)))"
    by (simp add: sorted_wrt_map)
  show "mset (srt nonce_less (filter P xs)) = mset (filter P (srt nonce_less xs))"
    by (simp add: contract_mset [OF assms(1)])
qed

text \<open>
  C7. For every event set with unique nonces and every nonce \<open>n\<close>, \<open>Filter(n).Sort()\<close>
  is the sequence \<open>Sort()\<close> returns for the whole set, with the elements whose
  \<open>event_nonce\<close> is less than or equal to \<open>n\<close> removed.
\<close>

theorem Filter_Sort_commute:
  assumes "sort_Slice_contract srt" and "unique_nonces e"
  shows "\<exists>evs. Sort srt e = Ok evs
           \<and> Sort srt (Filter e n) = Ok (filter (\<lambda>x. \<not> nonce_key x \<le> n) evs)"
  using sort_filter_commute [OF assms(1) distinct_nonce_key_merged [OF assms(2)]]
  by (simp add: Sort_eq merged_Filter)

theorem Filter_Sort_commute_witness:
  "sort_Slice_contract insertion_sort \<and> unique_nonces mixed_events
 \<and> (\<exists>evs. Sort insertion_sort mixed_events = Ok evs
       \<and> Sort insertion_sort (Filter mixed_events 8)
           = Ok (filter (\<lambda>x. \<not> nonce_key x \<le> 8) evs))"
  using Filter_Sort_commute [OF insertion_sort_contract unique_mixed, of 8]
    insertion_sort_contract unique_mixed by simp

subsection \<open>Unknown kinds\<close>

text \<open>
  C9. On a value of one of the five event kinds, neither the nonce extractor of \<open>Sort\<close>
  nor the claim dispatcher panics. On any other value each of them panics: the extractor
  returns no nonce, and the dispatcher makes no call and returns no error value, so the
  submission loop stops with the panic. (The submissions of the home-chain client are
  taken to return an error or succeed.)
\<close>

theorem dispatch_abort_iff:
  "(known_kind x \<longrightarrow> eventNonce x \<noteq> Panic \<and> fst (sendEthEventClaim s x st) \<noteq> Panic)
 \<and> (\<not> known_kind x \<longrightarrow>
      eventNonce x = Panic \<and> sendEthEventClaim s x st = (Panic, st)
    \<and> send_loop s (x # xs) st = (Panic, st))"
  by (cases x) (simp_all add: known_kind_def of_option_def split: prod.splits option.splits)

theorem dispatch_abort_iff_witness:
  "known_kind (PeggySendToInjectiveEvent (ev 7 1050))
 \<and> eventNonce (PeggySendToInjectiveEvent (ev 7 1050)) \<noteq> Panic
 \<and> fst (sendEthEventClaim quiet_orch (PeggySendToInjectiveEvent (ev 7 1050)) (0, [])) \<noteq> Panic
 \<and> \<not> known_kind (OtherValue 0)
 \<and> eventNonce (OtherValue 0) = Panic
 \<and> sendEthEventClaim quiet_orch (OtherValue 0) (0, []) = (Panic, (0, []))"
  using dispatch_abort_iff [of "PeggySendToInjectiveEvent (ev 7 1050)" quiet_orch "(0, [])" "[]"]
    dispatch_abort_iff [of "OtherValue 0" quiet_orch "(0, [])" "[]"]
  by (simp add: known_kind_def)

subsection \<open>What the ghost log records\<close>

lemma extends_by_refl: "extends_by P st st"
  by (simp add: extends_by_def)

lemma extends_by_trans:
  "extends_by P a b \<Longrightarrow> extends_by P b c \<Longrightarrow> extends_by P a c"
  by (auto simp: extends_by_def)

lemma extends_by_mono:
  "extends_by P a b \<Longrightarrow> (\<And>c. P c \<Longrightarrow> Q c) \<Longrightarrow> extends_by Q a b"
  by (auto simp: extends_by_def list_all_iff)

lemma perform_extends: "perform c f st = (r, st') \<Longrightarrow> P c \<Longrightarrow> extends_by P st st'"
  by (auto simp: perform_def extends_by_def split: prod.splits)

lemma time_Sleep_st_extends: "P (CallSleep d) \<Longrightarrow> extends_by P st (time_Sleep_st s d st)"
  by (simp add: time_Sleep_st_def extends_by_def)

lemma retry_loop_extends:
  assumes fn: "\<And>st r st'. fn st = (r, st') \<Longrightarrow> extends_by P st st'"
      and w: "P CallRetryWait"
  shows "retry_loop s n fn st = (r, st') \<Longrightarrow> extends_by P st st'"
proof (induction n arbitrary: st)
  case 0
  then show ?case by (simp add: extends_by_refl)
next
  case (Suc n)
  obtain r1 st1 where f: "fn st = (r1, st1)" by (cases "fn st")
  have e1: "extends_by P st st1" by (rule fn [OF f])
  show ?case
  proof (cases r1)
    case (Ok v)
    with Suc.prems f e1 show ?thesis by simp
  next
    case Panic
    with Suc.prems f e1 show ?thesis by simp
  next
    case (Err e)
    show ?thesis
    proof (cases "n = 0")
      case True
      with Suc.prems f e1 Err show ?thesis by simp
    next
      case False
      obtain c st2 where p: "perform CallRetryWait (retry_wait s) st1 = (c, st2)"
        by (cases "perform CallRetryWait (retry_wait s) st1")
      have e2: "extends_by P st st2"
        by (rule extends_by_trans [OF e1 perform_extends [where P = P, OF p w]])
      show ?thesis
      proof (cases c)
        case None
        with Suc.prems f Err False p have "retry_loop s n fn st2 = (r, st')" by simp
        then show ?thesis by (rule extends_by_trans [OF e2 Suc.IH])
      next
        case (Some ce)
        with Suc.prems f Err False p e2 show ?thesis by simp
      qed
    qed
  qed
qed

lemma retry_Do_extends:
  assumes "\<And>st r st'. fn st = (r, st') \<Longrightarrow> extends_by P st st'" and "P CallRetryWait"
      and "retry_Do s fn st = (r, st')"
  shows "extends_by P st st'"
proof (cases "ctx_Err s (fst st)")
  case None
  with assms(3) have "retry_loop s (maxAttempts s) fn st = (r, st')"
    by (simp add: retry_Do_def)
  then show ?thesis using assms(1,2) by (rule retry_loop_extends [where P = P, rotated 2])
next
  case (Some e)
  with assms(3) show ?thesis by (simp add: retry_Do_def extends_by_refl)
qed

lemma getLatestEthHeight_extends:
  assumes "getLatestEthHeight s st = (r, st')"
  shows "extends_by (\<lambda>c. \<not> is_query c \<and> \<not> is_send c) st st'"
proof (rule retry_Do_extends
    [where P = "\<lambda>c. \<not> is_query c \<and> \<not> is_send c", OF _ _ assms [unfolded getLatestEthHeight_def]])
  show "\<not> is_query CallRetryWait \<and> \<not> is_send CallRetryWait"
    by (simp add: is_query_def is_send_def)
  fix st r st' assume "getLatestEthHeightFn s st = (r, st')"
  then show "extends_by (\<lambda>c. \<not> is_query c \<and> \<not> is_send c) st st'"
    by (auto simp: getLatestEthHeightFn_def is_query_def is_send_def split: prod.splits
        intro!: perform_extends)
qed

lemma scanEthEventsFn_extends:
  assumes "scanEthEventsFn s a b st = (r, st')"
  shows "extends_by (\<lambda>c. within a b c \<and> \<not> is_send c) st st'"
  using assms unfolding scanEthEventsFn_def perform_def extends_by_def
  by (auto simp: within_def is_send_def split: prod.splits sum.splits)

lemma getEthEvents_extends:
  assumes "getEthEvents s a b st = (r, st')"
  shows "extends_by (\<lambda>c. within a b c \<and> \<not> is_send c) st st'"
proof (rule retry_Do_extends
    [where P = "\<lambda>c. within a b c \<and> \<not> is_send c", OF _ _ assms [unfolded getEthEvents_def]])
  show "within a b CallRetryWait \<and> \<not> is_send CallRetryWait"
    by (simp add: within_def is_send_def)
qed (rule scanEthEventsFn_extends)

lemma sendEthEventClaim_extends:
  "sendEthEventClaim s x st = (r, st') \<Longrightarrow> extends_by (\<lambda>c. \<not> is_query c) st st'"
  by (cases x) (auto simp: is_query_def extends_by_refl split: prod.splits intro!: perform_extends)

lemma send_loop_extends:
  "send_loop s xs st = (r, st') \<Longrightarrow> extends_by (\<lambda>c. \<not> is_query c) st st'"
proof (induction xs arbitrary: st)
  case Nil
  then show ?case by (simp add: extends_by_refl)
next
  case (Cons x xs)
  obtain r1 st1 where f: "sendEthEventClaim s x st = (r1, st1)"
    by (cases "sendEthEventClaim s x st")
  note e1 = sendEthEventClaim_extends [OF f]
  have e2: "extends_by (\<lambda>c. \<not> is_query c) st (time_Sleep_st s d st1)" for d
    by (rule extends_by_trans [OF e1 time_Sleep_st_extends]) (simp add: is_query_def)
  from Cons.prems f e1 show ?case
    by (cases r1) (auto intro: extends_by_trans [OF e2 Cons.IH])
qed

lemma sendEventsFn_extends:
  assumes "sendEventsFn s srt events st = (r, st')"
  shows "extends_by (\<lambda>c. \<not> is_query c) st st'"
proof -
  obtain c st1 where p:
    "perform CallLastClaimEventByAddr (LastClaimEventByAddr s (orchestratorAddr s)) st = (c, st1)"
    by (cases "perform CallLastClaimEventByAddr (LastClaimEventByAddr s (orchestratorAddr s)) st")
  have e1: "extends_by (\<lambda>c. \<not> is_query c) st st1"
    by (rule perform_extends [OF p]) (simp add: is_query_def)
  from assms p e1 show ?thesis
    by (auto simp: sendEventsFn_def Let_def split: sum.splits if_splits res.splits
        intro: extends_by_trans [OF e1 send_loop_extends])
qed

lemma sendNewEventClaims_extends:
  assumes "sendNewEventClaims s srt events st = (r, st')"
  shows "extends_by (\<lambda>c. \<not> is_query c) st st'"
proof (rule retry_Do_extends
    [where P = "\<lambda>c. \<not> is_query c", OF _ _ assms [unfolded sendNewEventClaims_def]])
  show "\<not> is_query CallRetryWait" by (simp add: is_query_def)
qed (rule sendEventsFn_extends)

lemma getLastClaimBlockHeight_extends:
  "getLastClaimBlockHeight s st = (r, st') \<Longrightarrow> extends_by (\<lambda>c. \<not> is_query c) st st'"
  by (auto simp: getLastClaimBlockHeight_def is_query_def split: prod.splits sum.splits
      intro!: perform_extends)

lemma autoResync_extends:
  assumes "autoResync s l st = (r, l', st')"
  shows "extends_by (\<lambda>c. \<not> is_query c) st st'"
proof -
  obtain r1 st1 where d: "retry_Do s (getLastClaimBlockHeight s) st = (r1, st1)"
    by (cases "retry_Do s (getLastClaimBlockHeight s) st")
  have "extends_by (\<lambda>c. \<not> is_query c) st st1"
  proof (rule retry_Do_extends [where P = "\<lambda>c. \<not> is_query c", OF _ _ d])
    show "\<not> is_query CallRetryWait" by (simp add: is_query_def)
  qed (rule getLastClaimBlockHeight_extends)
  with assms d show ?thesis
    by (cases r1) (auto simp: autoResync_def)
qed

lemma spaced_Cons_not_send: "\<not> is_send c \<Longrightarrow> spaced (c # cs) = spaced cs"
  by (cases cs) simp_all

lemma nonce_key_tag_of [simp]: "nonce_key (tag_of k e) = EventNonce e"
  by (cases k) simp_all

lemma sent_nonces_eq: "sent_nonces tr = map nonce_key (sent tr)"
  by (induction tr) (simp_all split: call.splits)

lemma sendEthEventClaim_log:
  assumes "sendEthEventClaim s x st = (r, st')"
  shows "(\<exists>k e. x = tag_of k e \<and> snd st' = snd st @ [CallSendClaim k e] \<and> r \<noteq> Panic)
       \<or> (r = Panic \<and> st' = st)"
proof (cases x)
  case (PeggySendToCosmosEvent e)
  with assms have "x = tag_of OldDeposit e \<and> snd st' = snd st @ [CallSendClaim OldDeposit e] \<and> r \<noteq> Panic"
    by (auto simp: perform_def of_option_def split: prod.splits option.splits)
  then show ?thesis by blast
next
  case (PeggySendToInjectiveEvent e)
  with assms have "x = tag_of Deposit e \<and> snd st' = snd st @ [CallSendClaim Deposit e] \<and> r \<noteq> Panic"
    by (auto simp: perform_def of_option_def split: prod.splits option.splits)
  then show ?thesis by blast
next
  case (PeggyValsetUpdatedEvent e)
  with assms have "x = tag_of ValsetUpdate e \<and> snd st' = snd st @ [CallSendClaim ValsetUpdate e] \<and> r \<noteq> Panic"
    by (auto simp: perform_def of_option_def split: prod.splits option.splits)
  then show ?thesis by blast
next
  case (PeggyTransactionBatchExecutedEvent e)
  with assms have "x = tag_of Withdrawal e \<and> snd st' = snd st @ [CallSendClaim Withdrawal e] \<and> r \<noteq> Panic"
    by (auto simp: perform_def of_option_def split: prod.splits option.splits)
  then show ?thesis by blast
next
  case (PeggyERC20DeployedEvent e)
  with assms have "x = tag_of ERC20Deployment e \<and> snd st' = snd st @ [CallSendClaim ERC20Deployment e] \<and> r \<noteq> Panic"
    by (auto simp: perform_def of_option_def split: prod.splits option.splits)
  then show ?thesis by blast
next
  case (OtherValue v)
  with assms show ?thesis by simp
qed

lemma send_loop_log:
  "send_loop s evs st = (r, st') \<Longrightarrow>
     \<exists>tr. snd st' = snd st @ tr \<and> spaced tr \<and> sent tr = take (length (sent tr)) evs
        \<and> (r = Ok () \<longrightarrow> sent tr = evs)"
proof (induction evs arbitrary: st)
  case Nil
  then show ?case by simp
next
  case (Cons x xs)
  obtain r1 st1 where f: "sendEthEventClaim s x st = (r1, st1)"
    by (cases "sendEthEventClaim s x st")
  from sendEthEventClaim_log [OF f] show ?case
  proof
    assume "r1 = Panic \<and> st1 = st"
    with Cons.prems f show ?thesis by simp
  next
    assume "\<exists>k e. x = tag_of k e \<and> snd st1 = snd st @ [CallSendClaim k e] \<and> r1 \<noteq> Panic"
    then obtain k e where x: "x = tag_of k e" and l1: "snd st1 = snd st @ [CallSendClaim k e]"
      and np: "r1 \<noteq> Panic" by blast
    show ?thesis
    proof (cases r1)
      case (Ok u)
      let ?st2 = "time_Sleep_st s (1200 * Millisecond) st1"
      from Cons.prems f Ok have "send_loop s xs ?st2 = (r, st')" by simp
      from Cons.IH [OF this] obtain tr where tr: "snd st' = snd ?st2 @ tr" "spaced tr"
        "sent tr = take (length (sent tr)) xs" "r = Ok () \<longrightarrow> sent tr = xs" by blast
      let ?tr = "CallSendClaim k e # CallSleep (1200 * Millisecond) # tr"
      have "snd st' = snd st @ ?tr"
        using tr(1) l1 by (simp add: time_Sleep_st_def)
      moreover have "spaced ?tr"
        using tr(2) by (simp add: spaced_Cons_not_send is_send_def)
      moreover have "sent ?tr = take (length (sent ?tr)) (x # xs)"
        using tr(3) x by simp
      moreover have "r = Ok () \<longrightarrow> sent ?tr = x # xs"
        using tr(4) x by simp
      ultimately show ?thesis by blast
    next
      case (Err er)
      with Cons.prems f have "r = Err er" "st' = st1" by simp_all
      with l1 x have "snd st' = snd st @ [CallSendClaim k e] \<and> spaced [CallSendClaim k e]
          \<and> sent [CallSendClaim k e] = take (length (sent [CallSendClaim k e])) (x # xs)
          \<and> (r = Ok () \<longrightarrow> sent [CallSendClaim k e] = x # xs)"
        by simp
      then show ?thesis by blast
    next
      case Panic
      with np show ?thesis by simp
    qed
  qed
qed

lemma sendEventsFn_log:
  assumes "LastClaimEventByAddr s (orchestratorAddr s) w = (Inr lastClaim, w0)"
      and "sort_Slice_contract srt"
      and "sendEventsFn s srt events (w, []) = (r, (w', tr))"
  shows "spaced tr
       \<and> sent tr = take (length (sent tr)) (srt nonce_less (merged (Filter events (EthereumEventNonce lastClaim))))
       \<and> (r = Ok () \<longrightarrow> sent tr = srt nonce_less (merged (Filter events (EthereumEventNonce lastClaim))))"
proof (cases "Num (Filter events (EthereumEventNonce lastClaim)) = 0")
  case True
  then have "merged (Filter events (EthereumEventNonce lastClaim)) = []"
    using length_merged [of "Filter events (EthereumEventNonce lastClaim)"] by simp
  moreover from assms(1,3) True have "tr = [CallLastClaimEventByAddr]"
    by (simp add: sendEventsFn_def perform_def)
  moreover have "srt nonce_less [] = []"
    using contract_mset [OF assms(2), of "[]"] by simp
  ultimately show ?thesis by simp
next
  case False
  let ?evs = "srt nonce_less (merged (Filter events (EthereumEventNonce lastClaim)))"
  from assms(1,3) False
  have "send_loop s ?evs (w0, [CallLastClaimEventByAddr]) = (r, (w', tr))"
    by (simp add: sendEventsFn_def perform_def Sort_eq)
  from send_loop_log [OF this] obtain tr' where tr': "tr = CallLastClaimEventByAddr # tr'"
    "spaced tr'" "sent tr' = take (length (sent tr')) ?evs" "r = Ok () \<longrightarrow> sent tr' = ?evs"
    by auto
  then show ?thesis by (simp add: spaced_Cons_not_send is_send_def)
qed


lemma unique_nonces_Filter:
  assumes "unique_nonces e"
  shows "distinct (map nonce_key (merged (Filter e n)))"
  using distinct_nonce_key_merged [OF assms]
  by (simp add: merged_Filter distinct_map_filter)

subsection \<open>The window of a tick\<close>

lemma unat_12: "unat (12 :: u64) = 12" by simp
lemma unat_2000: "unat (2000 :: u64) = 2000" by simp

lemma unat_minus_12: "\<not> h \<le> (12 :: u64) \<Longrightarrow> unat (h - 12) = unat h - 12"
  using unat_sub [of 12 h] by simp

lemma unat_plus_2000:
  "unat (c + 2000 :: u64) = (if unat c + 2000 < 2 ^ 64 then unat c + 2000 else unat c + 2000 - 2 ^ 64)"
proof -
  have "unat c < 2 ^ 64" using unsigned_less [of c] by simp
  then show ?thesis
    unfolding unat_word_ariths unat_2000
    by (auto simp: mod_if)
qed

lemma scan_window_None_iff:
  "scan_window c h = None \<longleftrightarrow> unat h \<le> unat c + 12"
  unfolding scan_window_def ethBlockConfirmationDelay_def defaultBlocksToSearch_def Let_def
  by (auto simp: word_le_nat_alt unat_minus_12 split: if_splits)

lemma scan_window_Some:
  "unat c + 12 < unat h \<Longrightarrow> scan_window c h = Some (c, min (h - 12) (c + 2000))"
  unfolding scan_window_def ethBlockConfirmationDelay_def defaultBlocksToSearch_def Let_def min_def
  by (auto simp: word_le_nat_alt word_less_nat_alt unat_minus_12 split: if_splits)

lemma window_width:
  assumes "unat c + 12 < unat h"
  shows "min (h - 12) (c + 2000) - c \<le> (2000 :: u64)"
proof (cases "h - 12 \<le> c + 2000")
  case False
  then show ?thesis by (simp add: min_def)
next
  case True
  have h12: "\<not> h \<le> 12" using assms by (simp add: word_le_nat_alt)
  have lt: "unat c < unat h - 12" using assms by simp
  have le: "unat h - 12 \<le> unat (c + 2000)"
    using True by (simp add: word_le_nat_alt unat_minus_12 [OF h12])
  have cle: "c \<le> h - 12"
    using lt by (simp add: word_le_nat_alt unat_minus_12 [OF h12])
  have "unat (h - 12 - c) = unat h - 12 - unat c"
    using unat_sub [OF cle] by (simp add: unat_minus_12 [OF h12])
  moreover have "unat h - 12 - unat c \<le> 2000"
    using lt le by (simp add: unat_plus_2000 split: if_splits)
  ultimately have "h - 12 - c \<le> 2000"
    by (simp add: word_le_nat_alt)
  with True show ?thesis by (simp add: min_def)
qed

lemma window_unat:
  assumes "unat c + 12 < unat h" "unat c + 2000 < 2 ^ 64"
  shows "unat (min (h - 12) (c + 2000 :: u64)) = min (unat h - 12) (unat c + 2000)"
proof -
  have h12: "\<not> h \<le> 12" using assms by (simp add: word_le_nat_alt)
  show ?thesis
    using assms(2) by (simp add: min_def word_le_nat_alt unat_minus_12 [OF h12] unat_plus_2000)
qed

lemma window_above:
  assumes "unat c + 12 < unat h" "unat c + 2000 < 2 ^ 64"
  shows "c < min (h - 12) (c + 2000 :: u64)"
  using assms window_unat [OF assms] by (simp add: word_less_nat_alt)

subsection \<open>The outcomes of a tick\<close>

lemma scan_window_SomeD:
  assumes "scan_window c h = Some (a, b)"
  shows "unat c + 12 < unat h \<and> a = c \<and> b = min (h - 12) (c + 2000)"
proof -
  have "\<not> unat h \<le> unat c + 12"
    using assms scan_window_None_iff [of c h] by auto
  then have "unat c + 12 < unat h" by simp
  with scan_window_Some [OF this] assms show ?thesis by simp
qed

lemma tick_cases [consumes 1, case_names head_failed no_scan scan_failed submit_failed advanced resync]:
  assumes "tick s srt l st = (r, l', st')"
  obtains
    r1 where "getLatestEthHeight s st = (r1, st')" "\<forall>h. r1 \<noteq> Ok h" "r \<noteq> Ok ()" "l' = l"
  | h where "getLatestEthHeight s st = (Ok h, st')"
      "scan_window (lastCheckedEthHeight l) h = None" "r = Ok ()" "l' = l"
  | h st1 latest r2 where "getLatestEthHeight s st = (Ok h, st1)"
      "scan_window (lastCheckedEthHeight l) h = Some (lastCheckedEthHeight l, latest)"
      "getEthEvents s (lastCheckedEthHeight l) latest st1 = (r2, st')"
      "\<forall>ev. r2 \<noteq> Ok ev" "r \<noteq> Ok ()" "l' = l"
  | h st1 latest events st2 where "getLatestEthHeight s st = (Ok h, st1)"
      "scan_window (lastCheckedEthHeight l) h = Some (lastCheckedEthHeight l, latest)"
      "getEthEvents s (lastCheckedEthHeight l) latest st1 = (Ok events, st2)"
      "sendNewEventClaims s srt events st2 = (r, st')" "r \<noteq> Ok ()" "l' = l"
  | h st1 latest events st2 where "getLatestEthHeight s st = (Ok h, st1)"
      "scan_window (lastCheckedEthHeight l) h = Some (lastCheckedEthHeight l, latest)"
      "getEthEvents s (lastCheckedEthHeight l) latest st1 = (Ok events, st2)"
      "sendNewEventClaims s srt events st2 = (Ok (), st')"
      "time_Now s (fst st') - lastResyncWithInjective l < 48 * Hour"
      "r = Ok ()" "l' = l\<lparr>lastCheckedEthHeight := latest\<rparr>"
  | h st1 latest events st2 st3 where "getLatestEthHeight s st = (Ok h, st1)"
      "scan_window (lastCheckedEthHeight l) h = Some (lastCheckedEthHeight l, latest)"
      "getEthEvents s (lastCheckedEthHeight l) latest st1 = (Ok events, st2)"
      "sendNewEventClaims s srt events st2 = (Ok (), st3)"
      "48 * Hour \<le> time_Now s (fst st3) - lastResyncWithInjective l"
      "autoResync s (l\<lparr>lastCheckedEthHeight := latest\<rparr>) st3 = (r, l', st')"
proof -
  obtain r1 st1 where h: "getLatestEthHeight s st = (r1, st1)"
    by (cases "getLatestEthHeight s st")
  show ?thesis
  proof (cases r1)
    case (Ok h')
    note h' = h [unfolded Ok]
    show ?thesis
    proof (cases "scan_window (lastCheckedEthHeight l) h'")
      case None
      with assms h' show ?thesis by (intro that(2) [of h']) (auto simp: tick_def)
    next
      case (Some win)
      obtain a latest where win: "win = (a, latest)" by (cases win)
      have w: "scan_window (lastCheckedEthHeight l) h' = Some (lastCheckedEthHeight l, latest)"
        using Some win scan_window_SomeD [of "lastCheckedEthHeight l" h' a latest] by simp
      obtain r2 st2 where g: "getEthEvents s (lastCheckedEthHeight l) latest st1 = (r2, st2)"
        by (cases "getEthEvents s (lastCheckedEthHeight l) latest st1")
      show ?thesis
      proof (cases r2)
        case (Ok events)
        note g' = g [unfolded Ok]
        obtain r3 st3 where c: "sendNewEventClaims s srt events st2 = (r3, st3)"
          by (cases "sendNewEventClaims s srt events st2")
        show ?thesis
        proof (cases r3)
          case (Ok u)
          note c' = c [unfolded Ok]
          show ?thesis
          proof (cases "48 * Hour \<le> time_Now s (fst st3) - lastResyncWithInjective l")
            case True
            with assms h' w g' c' show ?thesis
              by (intro that(6) [of h' st1 latest events st2 st3]) (auto simp: tick_def)
          next
            case False
            with assms h' w g' c' show ?thesis
              by (intro that(5) [of h' st1 latest events st2]) (auto simp: tick_def)
          qed
        next
          case (Err x)
          with assms h' w g' c show ?thesis
            by (intro that(4) [of h' st1 latest events st2]) (auto simp: tick_def)
        next
          case Panic
          with assms h' w g' c show ?thesis
            by (intro that(4) [of h' st1 latest events st2]) (auto simp: tick_def)
        qed
      next
        case (Err x)
        with assms h' w g show ?thesis
          by (intro that(3) [of h' st1 latest r2]) (auto simp: tick_def)
      next
        case Panic
        with assms h' w g show ?thesis
          by (intro that(3) [of h' st1 latest r2]) (auto simp: tick_def)
      qed
    qed
  next
    case (Err x)
    with assms h show ?thesis by (intro that(1) [of r1]) (auto simp: tick_def)
  next
    case Panic
    with assms h show ?thesis by (intro that(1) [of r1]) (auto simp: tick_def)
  qed
qed



lemma within_not_query: "\<not> is_query c \<Longrightarrow> within a b c"
  by (cases c) (simp_all add: within_def is_query_def)

lemma head_within:
  assumes "getLatestEthHeight s st = (r, st')"
  shows "extends_by (within a b) st st'"
  by (rule extends_by_mono [OF getLatestEthHeight_extends [OF assms]]) (simp add: within_not_query)

lemma scan_within:
  assumes "getEthEvents s a b st = (r, st')"
  shows "extends_by (within a b) st st'"
  by (rule extends_by_mono [OF getEthEvents_extends [OF assms]]) simp

lemma submit_within:
  assumes "sendNewEventClaims s srt events st = (r, st')"
  shows "extends_by (within a b) st st'"
  by (rule extends_by_mono [OF sendNewEventClaims_extends [OF assms]]) (simp add: within_not_query)

lemma resync_within:
  assumes "autoResync s l st = (r, l', st')"
  shows "extends_by (within a b) st st'"
  by (rule extends_by_mono [OF autoResync_extends [OF assms]]) (simp add: within_not_query)

lemma tick_extends_within:
  assumes "tick s srt l st = (r, l', st')"
      and "getLatestEthHeight s st = (Ok h, st1)"
      and "scan_window (lastCheckedEthHeight l) h = Some (a, b)"
  shows "extends_by (within a b) st st'"
  using assms(1)
proof (cases rule: tick_cases)
  case (head_failed r1)
  with assms(2) show ?thesis by simp
next
  case (no_scan h')
  with assms(2,3) show ?thesis by simp
next
  case (scan_failed h' st1' latest r2)
  with assms(2,3) have "getEthEvents s a b st1 = (r2, st')" by simp
  from extends_by_trans [OF head_within [OF assms(2)] scan_within [OF this]]
  show ?thesis .
next
  case (submit_failed h' st1' latest events st2)
  with assms(2,3) have "getEthEvents s a b st1 = (Ok events, st2)" by simp
  from extends_by_trans [OF extends_by_trans [OF head_within [OF assms(2)] scan_within [OF this]]
      submit_within [OF submit_failed(4)]]
  show ?thesis .
next
  case (advanced h' st1' latest events st2)
  with assms(2,3) have "getEthEvents s a b st1 = (Ok events, st2)" by simp
  from extends_by_trans [OF extends_by_trans [OF head_within [OF assms(2)] scan_within [OF this]]
      submit_within [OF advanced(4)]]
  show ?thesis .
next
  case (resync h' st1' latest events st2 st3)
  with assms(2,3) have "getEthEvents s a b st1 = (Ok events, st2)" by simp
  from extends_by_trans [OF extends_by_trans [OF extends_by_trans
        [OF head_within [OF assms(2)] scan_within [OF this]]
      submit_within [OF resync(4)]] resync_within [OF resync(6)]]
  show ?thesis .
qed

lemma extends_by_from_empty: "extends_by P (w, []) (w', tr) \<Longrightarrow> list_all P tr"
  by (simp add: extends_by_def)


lemma within_starts_at: "within a b c \<Longrightarrow> starts_at a c"
  by (cases c) (simp_all add: within_def starts_at_def)

lemma tick_starts_at:
  assumes "tick s srt l st = (r, l', st')"
  shows "extends_by (starts_at (lastCheckedEthHeight l)) st st'"
  using assms
proof (cases rule: tick_cases)
  case (head_failed r1)
  show ?thesis
    by (rule extends_by_mono [OF head_within [OF head_failed(1)]]) (rule within_starts_at)
next
  case (no_scan h)
  show ?thesis
    by (rule extends_by_mono [OF head_within [OF no_scan(1)]]) (rule within_starts_at)
next
  case (scan_failed h st1 latest r2)
  show ?thesis
    by (rule extends_by_mono [OF tick_extends_within [OF assms scan_failed(1,2)]])
      (rule within_starts_at)
next
  case (submit_failed h st1 latest events st2)
  show ?thesis
    by (rule extends_by_mono [OF tick_extends_within [OF assms submit_failed(1,2)]])
      (rule within_starts_at)
next
  case (advanced h st1 latest events st2)
  show ?thesis
    by (rule extends_by_mono [OF tick_extends_within [OF assms advanced(1,2)]])
      (rule within_starts_at)
next
  case (resync h st1 latest events st2 st3)
  show ?thesis
    by (rule extends_by_mono [OF tick_extends_within [OF assms resync(1,2)]])
      (rule within_starts_at)
qed

subsection \<open>The scenarios, evaluated\<close>

lemma retry_loop_numeral:
  "retry_loop s (numeral k) fn st = retry_loop s (Suc (pred_numeral k)) fn st"
  by (simp only: numeral_eq_Suc)

lemmas run_simps = tick_def getLatestEthHeight_def getLatestEthHeightFn_def retry_Do_def
  perform_def of_sum_def of_option_def scan_window_def ethBlockConfirmationDelay_def
  defaultBlocksToSearch_def getEthEvents_def scanEthEventsFn_def sendNewEventClaims_def
  sendEventsFn_def Filter_def Num_def Sort_eq merged_eq autoResync_def
  getLastClaimBlockHeight_def time_Sleep_st_def mock_def Hour_def Millisecond_def
  insertion_sort_def nonce_less_def in_range_def ev_def claim_at_def loop_at_def
  no_events_def retry_loop_numeral

lemma quiet_head: "getLatestEthHeight quiet_orch (0, []) = (Ok 1100, (1, [CallHeaderByNumber]))"
  by (simp add: quiet_orch_def run_simps)

lemma quiet_tick:
  "tick quiet_orch insertion_sort (loop_at 1000) (0, [])
     = (Ok (), loop_at 1088,
        (7, [CallHeaderByNumber, CallGetEvents OldDeposit 1000 1088,
             CallGetEvents Deposit 1000 1088, CallGetEvents Withdrawal 1000 1088,
             CallGetEvents ERC20Deployment 1000 1088, CallGetEvents ValsetUpdate 1000 1088,
             CallLastClaimEventByAddr]))"
  by (simp add: quiet_orch_def run_simps)

lemma retry_tick:
  "first_tick retry_orch 1000
     = (Ok (), loop_at 1188,
        (13, [CallHeaderByNumber, CallGetEvents OldDeposit 1000 1188,
              CallGetEvents Deposit 1000 1188, CallGetEvents Withdrawal 1000 1188,
              CallGetEvents ERC20Deployment 1000 1188, CallGetEvents ValsetUpdate 1000 1188,
              CallLastClaimEventByAddr,
              CallSendClaim Withdrawal (ev 8 1015), CallSleep (1200 * Millisecond),
              CallSendClaim ValsetUpdate (ev 9 1018),
              CallRetryWait, CallLastClaimEventByAddr,
              CallSendClaim Withdrawal (ev 8 1015), CallSleep (1200 * Millisecond),
              CallSendClaim ValsetUpdate (ev 9 1018), CallSleep (1200 * Millisecond),
              CallSendClaim OldDeposit (ev 10 1020), CallSleep (1200 * Millisecond)]))"
  by (simp add: first_tick_def retry_orch_def mixed_events_def run_simps)



lemma resync_rewinds_first:
  "first_tick resync_rewinds_orch 5000
     = (Ok (), (loop_at 4200)\<lparr>lastResyncWithInjective := 49 * Hour\<rparr>,
        (8, [CallHeaderByNumber, CallGetEvents OldDeposit 5000 5988,
             CallGetEvents Deposit 5000 5988, CallGetEvents Withdrawal 5000 5988,
             CallGetEvents ERC20Deployment 5000 5988, CallGetEvents ValsetUpdate 5000 5988,
             CallLastClaimEventByAddr, CallLastClaimEventByAddr]))"
  by (simp add: first_tick_def resync_rewinds_orch_def run_simps)

lemma resync_rewinds_second:
  "second_tick resync_rewinds_orch 5000
     = (Ok (), (loop_at 5988)\<lparr>lastResyncWithInjective := 49 * Hour\<rparr>,
        (15, [CallHeaderByNumber, CallGetEvents OldDeposit 4200 5988,
             CallGetEvents Deposit 4200 5988, CallGetEvents Withdrawal 4200 5988,
             CallGetEvents ERC20Deployment 4200 5988, CallGetEvents ValsetUpdate 4200 5988,
             CallLastClaimEventByAddr]))"
  unfolding second_tick_def resync_rewinds_first
  by (simp add: resync_rewinds_orch_def run_simps)

lemma resync_once_eval:
  "resync_once = (Ok (), (loop_at 4200)\<lparr>lastResyncWithInjective := 1 * Hour\<rparr>,
                  (1, [CallLastClaimEventByAddr]))"
  by (simp add: resync_once_def ticking_orch_def run_simps)

lemma resync_twice_eval:
  "resync_twice = (Ok (), (loop_at 4200)\<lparr>lastResyncWithInjective := 2 * Hour\<rparr>,
                  (2, [CallLastClaimEventByAddr, CallLastClaimEventByAddr]))"
  unfolding resync_twice_def resync_once_eval
  by (simp add: ticking_orch_def run_simps)

lemma boundary_first:
  "first_tick boundary_orch 1000
     = (Ok (), loop_at 1088,
        (8, [CallHeaderByNumber, CallGetEvents OldDeposit 1000 1088,
             CallGetEvents Deposit 1000 1088, CallGetEvents Withdrawal 1000 1088,
             CallGetEvents ERC20Deployment 1000 1088, CallGetEvents ValsetUpdate 1000 1088,
             CallLastClaimEventByAddr, CallSendClaim Deposit (ev 7 1088),
             CallSleep (1200 * Millisecond)]))"
  by (simp add: first_tick_def boundary_orch_def boundary_events_def run_simps)

lemma boundary_second:
  "second_tick boundary_orch 1000
     = (Ok (), loop_at 1188,
        (16, [CallHeaderByNumber, CallGetEvents OldDeposit 1088 1188,
             CallGetEvents Deposit 1088 1188, CallGetEvents Withdrawal 1088 1188,
             CallGetEvents ERC20Deployment 1088 1188, CallGetEvents ValsetUpdate 1088 1188,
             CallLastClaimEventByAddr, CallSendClaim Deposit (ev 7 1088),
             CallSleep (1200 * Millisecond)]))"
  unfolding second_tick_def boundary_first
  by (simp add: boundary_orch_def boundary_events_def run_simps)

lemma young_head: "getLatestEthHeight young_orch (0, []) = (Ok 1010, (1, [CallHeaderByNumber]))"
  by (simp add: young_orch_def run_simps)

lemma young_tick:
  "tick young_orch insertion_sort (loop_at 1000) (0, [])
     = (Ok (), loop_at 1000, (1, [CallHeaderByNumber]))"
  by (simp add: young_orch_def run_simps)

lemma retry_attempt:
  "sendEventsFn retry_orch insertion_sort mixed_events (6, [])
     = (Err (ErrExternal 2),
        (9, [CallLastClaimEventByAddr,
             CallSendClaim Withdrawal (ev 8 1015), CallSleep (1200 * Millisecond),
             CallSendClaim ValsetUpdate (ev 9 1018)]))"
  by (simp add: retry_orch_def mixed_events_def run_simps)

lemma retry_last_claim:
  "LastClaimEventByAddr retry_orch (orchestratorAddr retry_orch) 6 = (Inr (claim_at 7 1000), 7)"
  by (simp add: retry_orch_def mock_def)

lemma ticking_first:
  "retry_Do ticking_orch (getLastClaimBlockHeight ticking_orch) (0, [])
     = (Ok 4200, (1, [CallLastClaimEventByAddr]))"
  by (simp add: ticking_orch_def run_simps)

lemma ticking_second:
  "retry_Do ticking_orch (getLastClaimBlockHeight ticking_orch) (1, [CallLastClaimEventByAddr])
     = (Ok 4200, (2, [CallLastClaimEventByAddr, CallLastClaimEventByAddr]))"
  by (simp add: ticking_orch_def run_simps)

lemma boundary_head:
  "getLatestEthHeight boundary_orch (0, []) = (Ok 1100, (1, [CallHeaderByNumber]))"
  by (simp add: boundary_orch_def boundary_events_def run_simps)

lemma boundary_window: "scan_window (lastCheckedEthHeight (loop_at 1000)) 1100 = Some (1000, 1088)"
  by (simp add: run_simps)

lemma boundary_scan:
  "getEthEvents boundary_orch 1000 1088 (1, [CallHeaderByNumber])
     = (Ok boundary_events,
        (6, [CallHeaderByNumber, CallGetEvents OldDeposit 1000 1088,
             CallGetEvents Deposit 1000 1088, CallGetEvents Withdrawal 1000 1088,
             CallGetEvents ERC20Deployment 1000 1088, CallGetEvents ValsetUpdate 1000 1088]))"
  by (simp add: boundary_orch_def boundary_events_def run_simps)

lemma boundary_submit:
  "sendNewEventClaims boundary_orch insertion_sort boundary_events
       (6, [CallHeaderByNumber, CallGetEvents OldDeposit 1000 1088,
            CallGetEvents Deposit 1000 1088, CallGetEvents Withdrawal 1000 1088,
            CallGetEvents ERC20Deployment 1000 1088, CallGetEvents ValsetUpdate 1000 1088])
     = (Ok (),
        (8, [CallHeaderByNumber, CallGetEvents OldDeposit 1000 1088,
             CallGetEvents Deposit 1000 1088, CallGetEvents Withdrawal 1000 1088,
             CallGetEvents ERC20Deployment 1000 1088, CallGetEvents ValsetUpdate 1000 1088,
             CallLastClaimEventByAddr, CallSendClaim Deposit (ev 7 1088),
             CallSleep (1200 * Millisecond)]))"
  by (simp add: boundary_orch_def boundary_events_def run_simps)

lemma boundary_fresh:
  "time_Now boundary_orch 8 - lastResyncWithInjective (loop_at 1000) < 48 * Hour"
  by (simp add: boundary_orch_def boundary_events_def run_simps)

lemma boundary_next:
  "tick boundary_orch insertion_sort ((loop_at 1000)\<lparr>lastCheckedEthHeight := 1088\<rparr>) (8, [])
     = (Ok (), loop_at 1188,
        (16, [CallHeaderByNumber, CallGetEvents OldDeposit 1088 1188,
             CallGetEvents Deposit 1088 1188, CallGetEvents Withdrawal 1088 1188,
             CallGetEvents ERC20Deployment 1088 1188, CallGetEvents ValsetUpdate 1088 1188,
             CallLastClaimEventByAddr, CallSendClaim Deposit (ev 7 1088),
             CallSleep (1200 * Millisecond)]))"
  by (simp add: boundary_orch_def boundary_events_def run_simps)

lemma boundary_last_claim:
  "LastClaimEventByAddr boundary_orch (orchestratorAddr boundary_orch) 14
     = (Inr (claim_at 6 1000), 15)"
  by (simp add: boundary_orch_def mock_def)

lemma boundary_attempt:
  "sendEventsFn boundary_orch insertion_sort boundary_events (14, [])
     = (Ok (), (16, [CallLastClaimEventByAddr, CallSendClaim Deposit (ev 7 1088),
                     CallSleep (1200 * Millisecond)]))"
  by (simp add: boundary_orch_def boundary_events_def run_simps)

subsection \<open>The confirmation delay and the window\<close>

lemma tick_extends_scan:
  assumes "tick s srt l st = (r, l', st')"
      and "getLatestEthHeight s st = (Ok h, st1)"
      and "scan_window (lastCheckedEthHeight l) h = Some (a, b)"
      and "getEthEvents s a b st1 = (r2, st2)"
  shows "extends_by (\<lambda>c. True) st2 st'"
  using assms(1)
proof (cases rule: tick_cases)
  case (head_failed r1)
  with assms(2) show ?thesis by simp
next
  case (no_scan h')
  with assms(2,3) show ?thesis by simp
next
  case (scan_failed h' st1' latest r2')
  with assms(2-4) have "st2 = st'" by simp
  then show ?thesis by (simp add: extends_by_refl)
next
  case (submit_failed h' st1' latest events st2')
  with assms(2-4) have "sendNewEventClaims s srt events st2 = (r, st')" by simp
  from extends_by_mono [OF sendNewEventClaims_extends [OF this]] show ?thesis by simp
next
  case (advanced h' st1' latest events st2')
  with assms(2-4) have "sendNewEventClaims s srt events st2 = (Ok (), st')" by simp
  from extends_by_mono [OF sendNewEventClaims_extends [OF this]] show ?thesis by simp
next
  case (resync h' st1' latest events st2' st3)
  with assms(2-4) have "sendNewEventClaims s srt events st2 = (Ok (), st3)" by simp
  from extends_by_trans [OF extends_by_mono [OF sendNewEventClaims_extends [OF this]]
      extends_by_mono [OF autoResync_extends [OF resync(6)]], of "\<lambda>c. True"]
  show ?thesis by simp
qed

lemma wrap_head:
  "getLatestEthHeight wrap_orch (0, []) = (Ok 18446744073709551615, (1, [CallHeaderByNumber]))"
  by (simp add: wrap_orch_def run_simps)

lemma wrap_tick:
  "first_tick wrap_orch 18446744073709550616
     = (Ok (), loop_at 1000,
        (7, [CallHeaderByNumber, CallGetEvents OldDeposit 18446744073709550616 1000,
             CallGetEvents Deposit 18446744073709550616 1000,
             CallGetEvents Withdrawal 18446744073709550616 1000,
             CallGetEvents ERC20Deployment 18446744073709550616 1000,
             CallGetEvents ValsetUpdate 18446744073709550616 1000,
             CallLastClaimEventByAddr]))"
  by (simp add: first_tick_def wrap_orch_def run_simps)

lemma quiet_bound: "unat (lastCheckedEthHeight (loop_at 1000)) + 2000 < 2 ^ 64"
  by (simp add: loop_at_def)

text \<open>
  C4 does not hold as stated. With the cursor at \<open>2^64 - 1000\<close> and the head at
  \<open>2^64 - 1\<close>, the head is more than 12 above the cursor and \<open>min (h - 12) (c + 2000)\<close>
  is \<open>h - 12\<close>; but \<open>c + 2000\<close> wraps around to 1000 on line 71 of the source, the tick
  queries the blocks from \<open>2^64 - 1000\<close> to 1000 and sets the cursor to 1000.
\<close>

theorem tick_window_wraps:
  "getLatestEthHeight wrap_orch (0, []) = (Ok 18446744073709551615, (1, [CallHeaderByNumber]))
 \<and> lastCheckedEthHeight (loop_at 18446744073709550616) = 18446744073709550616
 \<and> unat (18446744073709550616 :: u64) + 12 < unat (18446744073709551615 :: u64)
 \<and> min (unat (18446744073709551615 :: u64) - 12) (unat (18446744073709550616 :: u64) + 2000)
     = 18446744073709551603
 \<and> fst (first_tick wrap_orch 18446744073709550616) = Ok ()
 \<and> CallGetEvents OldDeposit 18446744073709550616 1000
     \<in> set (snd (snd (snd (first_tick wrap_orch 18446744073709550616))))
 \<and> unat (1000 :: u64) \<noteq> 18446744073709551603
 \<and> lastCheckedEthHeight (fst (snd (first_tick wrap_orch 18446744073709550616))) = 1000"
  by (simp add: wrap_head wrap_tick loop_at_def)

text \<open>
  C4, amended. For every tick whose head query returns \<open>h\<close>, from a cursor \<open>c\<close> with
  \<open>c + 2000\<close> within the \<^verbatim>\<open>uint64\<close> range: if \<open>h \<le> c + 12\<close> the tick returns without
  error, makes no event query, submits no claim and leaves the loop's state unchanged;
  otherwise the tick hands the window from \<open>c\<close> to \<open>latest = min (h - 12) (c + 2000)\<close> to
  the scan, whose calls open the rest of the tick's log, every event query of the tick
  asks for exactly these blocks, \<open>latest\<close> is above \<open>c\<close>, and the width \<open>latest - c\<close> is
  at most 2000.
\<close>

theorem tick_window:
  assumes "getLatestEthHeight s (w, []) = (Ok h, st1)"
      and "tick s srt l (w, []) = (r, l', (w', tr))"
      and "unat (lastCheckedEthHeight l) + 2000 < 2 ^ 64"
  shows "(unat h \<le> unat (lastCheckedEthHeight l) + 12 \<longrightarrow>
            r = Ok () \<and> l' = l \<and> list_all (\<lambda>c. \<not> is_query c \<and> \<not> is_send c) tr)
       \<and> (unat (lastCheckedEthHeight l) + 12 < unat h \<longrightarrow>
            unat (min (h - 12) (lastCheckedEthHeight l + 2000))
              = min (unat h - 12) (unat (lastCheckedEthHeight l) + 2000)
          \<and> lastCheckedEthHeight l < min (h - 12) (lastCheckedEthHeight l + 2000)
          \<and> unat (min (h - 12) (lastCheckedEthHeight l + 2000))
               - unat (lastCheckedEthHeight l) \<le> 2000
          \<and> min (h - 12) (lastCheckedEthHeight l + 2000) - lastCheckedEthHeight l \<le> 2000
          \<and> scan_window (lastCheckedEthHeight l) h
              = Some (lastCheckedEthHeight l, min (h - 12) (lastCheckedEthHeight l + 2000))
          \<and> list_all (within (lastCheckedEthHeight l)
                        (min (h - 12) (lastCheckedEthHeight l + 2000))) tr
          \<and> (\<exists>r2 st2 rest.
                getEthEvents s (lastCheckedEthHeight l)
                  (min (h - 12) (lastCheckedEthHeight l + 2000)) st1 = (r2, st2)
              \<and> tr = snd st2 @ rest))"
proof (intro conjI impI)
  assume le: "unat h \<le> unat (lastCheckedEthHeight l) + 12"
  then have n: "scan_window (lastCheckedEthHeight l) h = None"
    by (simp add: scan_window_None_iff)
  with assms have *: "r = Ok () \<and> l' = l \<and> st1 = (w', tr)"
    by (simp add: tick_def)
  then show "r = Ok ()" "l' = l" by simp_all
  from * assms(1) show "list_all (\<lambda>c. \<not> is_query c \<and> \<not> is_send c) tr"
    using extends_by_from_empty [OF getLatestEthHeight_extends] by simp
next
  let ?c = "lastCheckedEthHeight l"
  let ?latest = "min (h - 12) (?c + 2000)"
  assume gt: "unat ?c + 12 < unat h"
  show u: "unat ?latest = min (unat h - 12) (unat ?c + 2000)"
    by (rule window_unat [OF gt assms(3)])
  show "?c < ?latest"
    by (rule window_above [OF gt assms(3)])
  show "unat ?latest - unat ?c \<le> 2000"
    unfolding u by simp
  show "?latest - ?c \<le> 2000"
    by (rule window_width [OF gt])
  show w: "scan_window ?c h = Some (?c, ?latest)"
    by (rule scan_window_Some [OF gt])
  show "list_all (within ?c ?latest) tr"
    by (rule extends_by_from_empty [OF tick_extends_within [OF assms(2,1) w]])
  obtain r2 st2 where g: "getEthEvents s ?c ?latest st1 = (r2, st2)"
    by (cases "getEthEvents s ?c ?latest st1")
  from tick_extends_scan [OF assms(2,1) w g] obtain rest where "tr = snd st2 @ rest"
    by (auto simp: extends_by_def)
  with g show "\<exists>r2 st2 rest. getEthEvents s ?c ?latest st1 = (r2, st2) \<and> tr = snd st2 @ rest"
    by blast
qed

theorem tick_window_witness:
  "getLatestEthHeight quiet_orch (0, []) = (Ok 1100, (1, [CallHeaderByNumber]))
 \<and> tick quiet_orch insertion_sort (loop_at 1000) (0, [])
     = (Ok (), loop_at 1088,
        (7, [CallHeaderByNumber, CallGetEvents OldDeposit 1000 1088,
             CallGetEvents Deposit 1000 1088, CallGetEvents Withdrawal 1000 1088,
             CallGetEvents ERC20Deployment 1000 1088, CallGetEvents ValsetUpdate 1000 1088,
             CallLastClaimEventByAddr]))
 \<and> unat (lastCheckedEthHeight (loop_at 1000)) + 2000 < 2 ^ 64
 \<and> unat (lastCheckedEthHeight (loop_at 1000)) + 12 < unat (1100 :: u64)
 \<and> unat (1088 :: u64) = min (unat (1100 :: u64) - 12) (unat (1000 :: u64) + 2000)
 \<and> scan_window 1000 1100 = Some (1000, 1088)
 \<and> list_all (within 1000 1088)
       [CallHeaderByNumber, CallGetEvents OldDeposit 1000 1088,
        CallGetEvents Deposit 1000 1088, CallGetEvents Withdrawal 1000 1088,
        CallGetEvents ERC20Deployment 1000 1088, CallGetEvents ValsetUpdate 1000 1088,
        CallLastClaimEventByAddr]
 \<and> unat (1088 :: u64) - unat (1000 :: u64) \<le> 2000
 \<and> (\<exists>r2 st2 rest.
       getEthEvents quiet_orch 1000 1088 (1, [CallHeaderByNumber]) = (r2, st2)
     \<and> [CallHeaderByNumber, CallGetEvents OldDeposit 1000 1088,
         CallGetEvents Deposit 1000 1088, CallGetEvents Withdrawal 1000 1088,
         CallGetEvents ERC20Deployment 1000 1088, CallGetEvents ValsetUpdate 1000 1088,
         CallLastClaimEventByAddr] = snd st2 @ rest)
 \<and> getLatestEthHeight young_orch (0, []) = (Ok 1010, (1, [CallHeaderByNumber]))
 \<and> tick young_orch insertion_sort (loop_at 1000) (0, [])
     = (Ok (), loop_at 1000, (1, [CallHeaderByNumber]))
 \<and> unat (1010 :: u64) \<le> unat (lastCheckedEthHeight (loop_at 1000)) + 12
 \<and> list_all (\<lambda>c. \<not> is_query c \<and> \<not> is_send c) [CallHeaderByNumber]"
  using tick_window [OF quiet_head quiet_tick quiet_bound]
    tick_window [OF young_head young_tick quiet_bound]
    quiet_head quiet_tick young_head young_tick quiet_bound
  by (simp add: loop_at_def)

subsection \<open>The cursor on a failed tick\<close>




subsection \<open>The cursor on a successful tick\<close>




subsection \<open>Resync run twice\<close>

text \<open>
  C8 does not hold as stated. With a clock that advances, two runs of the resync that
  read the same last claim leave different states: the second run stores a later time
  of the last resync.
\<close>

theorem resync_twice_differs:
  "LastClaimEventByAddr ticking_orch (orchestratorAddr ticking_orch) 0 = (Inr (claim_at 6 4200), 1)
 \<and> LastClaimEventByAddr ticking_orch (orchestratorAddr ticking_orch) 1 = (Inr (claim_at 6 4200), 2)
 \<and> fst resync_once = Ok () \<and> fst resync_twice = Ok ()
 \<and> lastResyncWithInjective (fst (snd resync_once)) = 1 * Hour
 \<and> lastResyncWithInjective (fst (snd resync_twice)) = 2 * Hour
 \<and> fst (snd resync_twice) \<noteq> fst (snd resync_once)"
  by (simp add: resync_once_eval resync_twice_eval ticking_orch_def mock_def loop_at_def Hour_def)

text \<open>
  C8, amended. When two runs of the resync in a row read the same height \<open>h\<close> of the
  last claim, each sets the cursor to \<open>h\<close> and the time of the last resync to the
  clock's reading at the end of its read, and changes nothing else: the state after the
  second run is the state after the first with only the time of the last resync renewed.
\<close>

theorem autoResync_twice:
  assumes "retry_Do s (getLastClaimBlockHeight s) st = (Ok h, st1)"
      and "retry_Do s (getLastClaimBlockHeight s) st1 = (Ok h, st2)"
  shows "autoResync s l st
           = (Ok (), l\<lparr>lastCheckedEthHeight := h,
                       lastResyncWithInjective := time_Now s (fst st1)\<rparr>, st1)
       \<and> autoResync s (l\<lparr>lastCheckedEthHeight := h,
                          lastResyncWithInjective := time_Now s (fst st1)\<rparr>) st1
           = (Ok (), l\<lparr>lastCheckedEthHeight := h,
                       lastResyncWithInjective := time_Now s (fst st2)\<rparr>, st2)"
  using assms by (simp add: autoResync_def)

theorem autoResync_twice_witness:
  "retry_Do ticking_orch (getLastClaimBlockHeight ticking_orch) (0, [])
     = (Ok 4200, (1, [CallLastClaimEventByAddr]))
 \<and> retry_Do ticking_orch (getLastClaimBlockHeight ticking_orch) (1, [CallLastClaimEventByAddr])
     = (Ok 4200, (2, [CallLastClaimEventByAddr, CallLastClaimEventByAddr]))
 \<and> autoResync ticking_orch (loop_at 5000) (0, [])
     = (Ok (), (loop_at 4200)\<lparr>lastResyncWithInjective := 1 * Hour\<rparr>,
        (1, [CallLastClaimEventByAddr]))
 \<and> autoResync ticking_orch ((loop_at 4200)\<lparr>lastResyncWithInjective := 1 * Hour\<rparr>)
       (1, [CallLastClaimEventByAddr])
     = (Ok (), (loop_at 4200)\<lparr>lastResyncWithInjective := 2 * Hour\<rparr>,
        (2, [CallLastClaimEventByAddr, CallLastClaimEventByAddr]))"
  using autoResync_twice [OF ticking_first ticking_second, of "loop_at 5000"]
    ticking_first ticking_second
  by (simp add: loop_at_def ticking_orch_def mock_def)

subsection \<open>Consecutive windows\<close>

text \<open>
  C10 does not hold as stated. When the resync runs in the first of two successful ticks,
  the cursor is the height of the last claim and not the upper bound of the window: the
  first tick scans the blocks 5000 to 5988, the second starts at 4200.
\<close>

theorem resync_breaks_window_chain:
  "first_tick resync_rewinds_orch 5000
     = (Ok (), (loop_at 4200)\<lparr>lastResyncWithInjective := 49 * Hour\<rparr>,
        (8, [CallHeaderByNumber, CallGetEvents OldDeposit 5000 5988,
             CallGetEvents Deposit 5000 5988, CallGetEvents Withdrawal 5000 5988,
             CallGetEvents ERC20Deployment 5000 5988, CallGetEvents ValsetUpdate 5000 5988,
             CallLastClaimEventByAddr, CallLastClaimEventByAddr]))
 \<and> second_tick resync_rewinds_orch 5000
     = (Ok (), (loop_at 5988)\<lparr>lastResyncWithInjective := 49 * Hour\<rparr>,
        (15, [CallHeaderByNumber, CallGetEvents OldDeposit 4200 5988,
             CallGetEvents Deposit 4200 5988, CallGetEvents Withdrawal 4200 5988,
             CallGetEvents ERC20Deployment 4200 5988, CallGetEvents ValsetUpdate 4200 5988,
             CallLastClaimEventByAddr]))
 \<and> \<not> list_all (starts_at 5988) (snd (snd (snd (second_tick resync_rewinds_orch 5000))))"
  by (simp add: resync_rewinds_first resync_rewinds_second starts_at_def)

text \<open>
  C10, amended. When a tick scans the window from \<open>a\<close> to \<open>b\<close>, submits without error
  and no resync is due, it sets the cursor to \<open>b\<close> and returns without error, all its
  event queries ask for the blocks from \<open>a\<close> to \<open>b\<close>, and every event query of the next
  tick starts at \<open>b\<close>: block \<open>b\<close> is the inclusive upper bound of the first scan and the
  inclusive lower bound of the second. A submit attempt that succeeds submits exactly the
  scanned events whose nonce is greater than the nonce of the last claim, whatever their
  block.
\<close>

theorem consecutive_ticks_share_bound:
  assumes "getLatestEthHeight s (w, []) = (Ok h, st1)"
      and "scan_window (lastCheckedEthHeight l) h = Some (a, b)"
      and "getEthEvents s a b st1 = (Ok events, st2)"
      and "sendNewEventClaims s srt events st2 = (Ok (), (w1, tr1))"
      and "time_Now s w1 - lastResyncWithInjective l < 48 * Hour"
      and "tick s srt (l\<lparr>lastCheckedEthHeight := b\<rparr>) (w1, []) = (r2, l2, (w2, tr2))"
      and "sort_Slice_contract srt"
      and "LastClaimEventByAddr s (orchestratorAddr s) wa = (Inr lastClaim, wa0)"
      and "sendEventsFn s srt events2 (wa, []) = (Ok (), (wa', tra))"
  shows "tick s srt l (w, []) = (Ok (), l\<lparr>lastCheckedEthHeight := b\<rparr>, (w1, tr1))
       \<and> a = lastCheckedEthHeight l
       \<and> list_all (within a b) tr1
       \<and> list_all (starts_at b) tr2
       \<and> mset (sent tra)
           = filter_mset (\<lambda>x. EthereumEventNonce lastClaim < nonce_key x) (tagged_events events2)"
proof -
  have a: "a = lastCheckedEthHeight l"
    using scan_window_SomeD [OF assms(2)] by simp
  have t: "tick s srt l (w, []) = (Ok (), l\<lparr>lastCheckedEthHeight := b\<rparr>, (w1, tr1))"
    using assms(1-5) a by (simp add: tick_def)
  have "list_all (within a b) tr1"
    by (rule extends_by_from_empty [OF tick_extends_within [OF t assms(1,2)]])
  moreover have "list_all (starts_at b) tr2"
    using extends_by_from_empty [OF tick_starts_at [OF assms(6)]] by simp
  moreover have "mset (sent tra)
      = filter_mset (\<lambda>x. EthereumEventNonce lastClaim < nonce_key x) (tagged_events events2)"
  proof -
    have "sent tra = srt nonce_less (merged (Filter events2 (EthereumEventNonce lastClaim)))"
      using sendEventsFn_log [OF assms(8,7,9)] by simp
    then have "mset (sent tra) = mset (merged (Filter events2 (EthereumEventNonce lastClaim)))"
      by (simp add: contract_mset [OF assms(7)])
    then show ?thesis
      by (simp add: merged_Filter not_le flip: tagged_events_merged)
  qed
  ultimately show ?thesis using a t by simp
qed

theorem consecutive_ticks_share_bound_witness:
  "getLatestEthHeight boundary_orch (0, []) = (Ok 1100, (1, [CallHeaderByNumber]))
 \<and> scan_window (lastCheckedEthHeight (loop_at 1000)) 1100 = Some (1000, 1088)
 \<and> time_Now boundary_orch 8 - lastResyncWithInjective (loop_at 1000) < 48 * Hour
 \<and> sort_Slice_contract insertion_sort
 \<and> LastClaimEventByAddr boundary_orch (orchestratorAddr boundary_orch) 14
     = (Inr (claim_at 6 1000), 15)
 \<and> sendEventsFn boundary_orch insertion_sort boundary_events (14, [])
     = (Ok (), (16, [CallLastClaimEventByAddr, CallSendClaim Deposit (ev 7 1088),
                     CallSleep (1200 * Millisecond)]))
 \<and> tick boundary_orch insertion_sort (loop_at 1000) (0, [])
     = (Ok (), loop_at 1088,
        (8, [CallHeaderByNumber, CallGetEvents OldDeposit 1000 1088,
             CallGetEvents Deposit 1000 1088, CallGetEvents Withdrawal 1000 1088,
             CallGetEvents ERC20Deployment 1000 1088, CallGetEvents ValsetUpdate 1000 1088,
             CallLastClaimEventByAddr, CallSendClaim Deposit (ev 7 1088),
             CallSleep (1200 * Millisecond)]))
 \<and> tick boundary_orch insertion_sort (loop_at 1088) (8, [])
     = (Ok (), loop_at 1188,
        (16, [CallHeaderByNumber, CallGetEvents OldDeposit 1088 1188,
             CallGetEvents Deposit 1088 1188, CallGetEvents Withdrawal 1088 1188,
             CallGetEvents ERC20Deployment 1088 1188, CallGetEvents ValsetUpdate 1088 1188,
             CallLastClaimEventByAddr, CallSendClaim Deposit (ev 7 1088),
             CallSleep (1200 * Millisecond)]))
 \<and> list_all (starts_at 1088)
       [CallHeaderByNumber, CallGetEvents OldDeposit 1088 1188,
        CallGetEvents Deposit 1088 1188, CallGetEvents Withdrawal 1088 1188,
        CallGetEvents ERC20Deployment 1088 1188, CallGetEvents ValsetUpdate 1088 1188,
        CallLastClaimEventByAddr, CallSendClaim Deposit (ev 7 1088),
        CallSleep (1200 * Millisecond)]
 \<and> mset (sent [CallLastClaimEventByAddr, CallSendClaim Deposit (ev 7 1088),
               CallSleep (1200 * Millisecond)])
     = filter_mset (\<lambda>x. EthereumEventNonce (claim_at 6 1000) < nonce_key x)
         (tagged_events boundary_events)"
  using consecutive_ticks_share_bound [OF boundary_head boundary_window boundary_scan
      boundary_submit boundary_fresh boundary_next insertion_sort_contract
      boundary_last_claim boundary_attempt]
    boundary_head boundary_window boundary_fresh insertion_sort_contract boundary_last_claim
    boundary_attempt boundary_next
  by (simp add: loop_at_def)

subsection \<open>The order of submission\<close>

text \<open>
  C1 does not hold as stated for a tick. In scenario 3 of the spec with a retry budget of
  two, the second submission of the first attempt fails; the second attempt reads the
  same last claim and submits from nonce 8 again. The tick completes without error, the
  nonces submitted are 8, 9, 8, 9, 10, and no sleep of 1200 ms lies between the failed
  submission and the next one.
\<close>

theorem tick_retry_resubmits:
  "unique_nonces mixed_events
 \<and> fst (first_tick retry_orch 1000) = Ok ()
 \<and> sent_nonces (snd (snd (snd (first_tick retry_orch 1000)))) = [8, 9, 8, 9, 10]
 \<and> \<not> sorted_wrt (<) (sent_nonces (snd (snd (snd (first_tick retry_orch 1000)))))
 \<and> \<not> spaced (snd (snd (snd (first_tick retry_orch 1000))))"
  by (simp add: retry_tick unique_mixed ev_def is_send_def)

text \<open>
  C1, amended. In every single submit attempt (one run of the operation that
  \<^verbatim>\<open>sendNewEventClaims\<close> retries) on an event set with unique nonces, with a sorting
  routine that meets the contract of \<^verbatim>\<open>sort.Slice\<close>: the claims submitted are in
  strictly ascending \<open>event_nonce\<close> order, each nonce is strictly greater than the nonce
  of the last claim read at the start of the attempt, each submission that is followed
  by another call is followed at once by the sleep of 1200 ms, and the claims submitted
  are an initial part of \<open>Sort\<close> of the filtered set, all of it when the attempt
  succeeds.
\<close>

theorem submit_attempt_ordered:
  assumes "sort_Slice_contract srt" and "unique_nonces events"
      and "LastClaimEventByAddr s (orchestratorAddr s) w = (Inr lastClaim, w0)"
      and "sendEventsFn s srt events (w, []) = (r, (w', tr))"
  shows "sorted_wrt (<) (sent_nonces tr)
       \<and> list_all (\<lambda>n. EthereumEventNonce lastClaim < n) (sent_nonces tr)
       \<and> spaced tr
       \<and> (\<exists>evs. Sort srt (Filter events (EthereumEventNonce lastClaim)) = Ok evs
             \<and> sent tr = take (length (sent tr)) evs
             \<and> (r = Ok () \<longrightarrow> sent tr = evs))"
proof -
  let ?n = "EthereumEventNonce lastClaim"
  let ?evs = "srt nonce_less (merged (Filter events ?n))"
  note log = sendEventsFn_log [OF assms(3,1,4)]
  have strict: "sorted_wrt (<) (map nonce_key ?evs)"
    by (rule contract_strict [OF assms(1) unique_nonces_Filter [OF assms(2)]])
  have "set ?evs = set (merged (Filter events ?n))"
    using contract_mset [OF assms(1)] by (metis set_mset_mset)
  then have above: "\<forall>x \<in> set ?evs. ?n < nonce_key x"
    by (simp add: merged_Filter not_le)
  from log have e: "sent tr = take (length (sent tr)) ?evs" by simp
  have "map nonce_key (sent tr) = map nonce_key (take (length (sent tr)) ?evs)"
    using e by (rule arg_cong)
  then have pre: "sent_nonces tr = take (length (sent tr)) (map nonce_key ?evs)"
    by (simp only: sent_nonces_eq take_map)
  have "sorted_wrt (<) (sent_nonces tr)"
    unfolding pre using strict by (rule sorted_wrt_take)
  moreover have "set (sent_nonces tr) \<subseteq> nonce_key ` set ?evs"
    unfolding pre using set_take_subset [of "length (sent tr)" "map nonce_key ?evs"] by simp
  then have "list_all (\<lambda>n. ?n < n) (sent_nonces tr)"
    using above by (auto simp: list_all_iff)
  ultimately show ?thesis using log by (simp add: Sort_eq)
qed

theorem submit_attempt_ordered_witness:
  "sort_Slice_contract insertion_sort \<and> unique_nonces mixed_events
 \<and> LastClaimEventByAddr retry_orch (orchestratorAddr retry_orch) 6 = (Inr (claim_at 7 1000), 7)
 \<and> sendEventsFn retry_orch insertion_sort mixed_events (6, [])
     = (Err (ErrExternal 2),
        (9, [CallLastClaimEventByAddr,
             CallSendClaim Withdrawal (ev 8 1015), CallSleep (1200 * Millisecond),
             CallSendClaim ValsetUpdate (ev 9 1018)]))
 \<and> sorted_wrt (<) (sent_nonces [CallLastClaimEventByAddr,
             CallSendClaim Withdrawal (ev 8 1015), CallSleep (1200 * Millisecond),
             CallSendClaim ValsetUpdate (ev 9 1018)])
 \<and> list_all (\<lambda>n. EthereumEventNonce (claim_at 7 1000) < n)
       (sent_nonces [CallLastClaimEventByAddr,
             CallSendClaim Withdrawal (ev 8 1015), CallSleep (1200 * Millisecond),
             CallSendClaim ValsetUpdate (ev 9 1018)])
 \<and> spaced [CallLastClaimEventByAddr,
             CallSendClaim Withdrawal (ev 8 1015), CallSleep (1200 * Millisecond),
             CallSendClaim ValsetUpdate (ev 9 1018)]"
  using submit_attempt_ordered [OF insertion_sort_contract unique_mixed retry_last_claim retry_attempt]
    insertion_sort_contract unique_mixed retry_last_claim retry_attempt
  by simp

end
